theory Spec2Isabelle
  imports Main "HOL-Library.Sublist" "HOL-Library.Char_ord" "HOL-Library.List_Lexorder"
begin

section \<open>Text primitives of the Python runtime\<close>

text \<open>
  The program \<^verbatim>\<open>ProgramaInteractivo.py\<close> works on Python \<^verbatim>\<open>str\<close> values. A Python string
  is modelled as a HOL \<^typ>\<open>string\<close>; a \<^typ>\<open>char\<close> stands for the code point of the same
  number, so the model covers text whose code points lie below 256. The functions of this
  section are the library operations the program calls (\<^verbatim>\<open>str.lower\<close>, \<^verbatim>\<open>str.strip\<close>,
  \<^verbatim>\<open>str.splitlines\<close>, \<^verbatim>\<open>str.join\<close>, the operator \<^verbatim>\<open>in\<close>, \<^verbatim>\<open>enumerate\<close>), restricted to
  that range.
\<close>

definition LF :: char where
  "LF = CHR 0x0A"

definition CR :: char where
  "CR = CHR 0x0D"

definition lower_char :: "char \<Rightarrow> char" where
  \<comment> \<open>simple lower-case mapping: A-Z and the capital letters 0xC0-0xDE (not the sign 0xD7)\<close>
  "lower_char c =
     (let n = (of_char c :: nat)
      in if (65 \<le> n \<and> n \<le> 90) \<or> (192 \<le> n \<and> n \<le> 222 \<and> n \<noteq> 215)
         then char_of (n + 32) else c)"

definition lower :: "string \<Rightarrow> string" where
  \<comment> \<open>\<^verbatim>\<open>s.lower()\<close>\<close>
  "lower s = map lower_char s"

definition is_space :: "char \<Rightarrow> bool" where
  \<comment> \<open>the characters \<^verbatim>\<open>str.strip()\<close> removes and the regex class \<^verbatim>\<open>\s\<close> accepts\<close>
  "is_space c =
     (let n = (of_char c :: nat)
      in (9 \<le> n \<and> n \<le> 13) \<or> (28 \<le> n \<and> n \<le> 32) \<or> n = 133 \<or> n = 160)"

definition is_linebreak :: "char \<Rightarrow> bool" where
  \<comment> \<open>the line boundaries of \<^verbatim>\<open>str.splitlines()\<close>\<close>
  "is_linebreak c =
     (let n = (of_char c :: nat)
      in (10 \<le> n \<and> n \<le> 13) \<or> (28 \<le> n \<and> n \<le> 30) \<or> n = 133)"

definition strip :: "string \<Rightarrow> string" where
  \<comment> \<open>\<^verbatim>\<open>s.strip()\<close>\<close>
  "strip s = rev (dropWhile is_space (rev (dropWhile is_space s)))"

function splitlines :: "string \<Rightarrow> string list" where
  \<comment> \<open>\<^verbatim>\<open>s.splitlines()\<close>: a line ends at a boundary character, CR LF counts as one boundary,
      and no empty line follows the last boundary\<close>
  "splitlines s =
     (if s = [] then []
      else (case dropWhile (\<lambda>c. \<not> is_linebreak c) s of
              [] \<Rightarrow> [s]
            | c # r \<Rightarrow>
                takeWhile (\<lambda>c. \<not> is_linebreak c) s #
                splitlines (if c = CR \<and> r \<noteq> [] \<and> hd r = LF then tl r else r)))"
  by pat_completeness auto
termination
proof (relation "measure length")
  show "wf (measure length)" by simp
next
  fix s :: string and c r
  assume "dropWhile (\<lambda>c. \<not> is_linebreak c) s = c # r"
  then have "length (c # r) \<le> length s"
    by (metis length_dropWhile_le)
  moreover have "length (tl r) \<le> length r" by simp
  ultimately show "((if c = CR \<and> r \<noteq> [] \<and> hd r = LF then tl r else r), s) \<in> measure length"
    by auto
qed

declare splitlines.simps [simp del]

fun join_lines :: "string list \<Rightarrow> string" where
  \<comment> \<open>\<^verbatim>\<open>"\n".join(xs)\<close>\<close>
  "join_lines [] = []"
| "join_lines [x] = x"
| "join_lines (x # y # r) = x @ LF # join_lines (y # r)"

fun str_in :: "string \<Rightarrow> string \<Rightarrow> bool" where
  \<comment> \<open>\<^verbatim>\<open>q in s\<close>: \<^verbatim>\<open>q\<close> occurs in \<^verbatim>\<open>s\<close> as a contiguous substring\<close>
  "str_in q [] = (q = [])"
| "str_in q (c # cs) = (prefix q (c # cs) \<or> str_in q cs)"

definition enumerate1 :: "'a list \<Rightarrow> (int \<times> 'a) list" where
  \<comment> \<open>\<^verbatim>\<open>enumerate(xs, start=1)\<close>\<close>
  "enumerate1 xs = zip [1..int (length xs)] xs"

definition py_slice :: "'a list \<Rightarrow> int \<Rightarrow> int \<Rightarrow> 'a list" where
  \<comment> \<open>\<^verbatim>\<open>xs[a:b]\<close>: a negative bound counts from the end, then both are clipped to the list\<close>
  "py_slice xs a b =
     (let n = int (length xs);
          a' = (if a < 0 then max 0 (a + n) else min a n);
          b' = (if b < 0 then max 0 (b + n) else min b n)
      in drop (nat a') (take (nat b') xs))"

section \<open>Table of contents: \<^verbatim>\<open>build_toc\<close>\<close>

text \<open>
  \<^verbatim>\<open>re.match(r"^(#{1,6})\s+(.*)", line.strip())\<close>, as the backtracking matcher runs it: the
  greedy \<^verbatim>\<open>#{1,6}\<close> is tried with six repetitions first and gives one back at a time;
  \<^verbatim>\<open>\s+\<close> needs a white-space character and takes the whole run (giving some back never
  helps, since \<^verbatim>\<open>.*\<close> matches anything); \<^verbatim>\<open>.*\<close> takes everything up to a line feed. The
  result holds the two groups.
\<close>

definition match_tail :: "string \<Rightarrow> string option" where
  \<comment> \<open>\<^verbatim>\<open>\s+(.*)\<close> at the start of \<^verbatim>\<open>r\<close>: the text of group 2\<close>
  "match_tail r =
     (case r of
        [] \<Rightarrow> None
      | c # _ \<Rightarrow> if is_space c then Some (takeWhile (\<lambda>c. c \<noteq> LF) (dropWhile is_space r))
                 else None)"

fun match_hashes :: "nat \<Rightarrow> string \<Rightarrow> (string \<times> string) option" where
  \<comment> \<open>\<^verbatim>\<open>(#{1,j})\s+(.*)\<close> at the start of \<^verbatim>\<open>s\<close>, most repetitions first\<close>
  "match_hashes 0 s = None"
| "match_hashes (Suc j) s =
     (if take (Suc j) s = replicate (Suc j) (CHR ''#'')
      then (case match_tail (drop (Suc j) s) of
              Some g2 \<Rightarrow> Some (take (Suc j) s, g2)
            | None \<Rightarrow> match_hashes j s)
      else match_hashes j s)"

definition re_match_header :: "string \<Rightarrow> (string \<times> string) option" where
  "re_match_header s = match_hashes 6 s"

type_synonym toc_entry = "int \<times> string \<times> int"

definition toc_step :: "toc_entry list \<Rightarrow> int \<times> string \<Rightarrow> toc_entry list" where
  \<comment> \<open>the body of the loop of \<^verbatim>\<open>build_toc\<close>, for line \<^verbatim>\<open>i\<close>\<close>
  "toc_step toc il =
     (case re_match_header (strip (snd il)) of
        Some (g1, g2) \<Rightarrow> toc @ [(int (length g1), strip g2, fst il)]
      | None \<Rightarrow> toc)"

definition build_toc :: "string \<Rightarrow> toc_entry list" where
  "build_toc md_text = foldl toc_step [] (enumerate1 (splitlines md_text))"

text \<open>The header lines as the specification describes them.\<close>

definition hash_run :: "string \<Rightarrow> nat" where
  \<comment> \<open>the number of leading \<^verbatim>\<open>#\<close> of the trimmed line\<close>
  "hash_run l = length (takeWhile (\<lambda>c. c = CHR ''#'') (strip l))"

definition spec_is_header :: "string \<Rightarrow> bool" where
  "spec_is_header l =
     (1 \<le> hash_run l \<and> hash_run l \<le> 6 \<and>
      (case drop (hash_run l) (strip l) of
         [] \<Rightarrow> False
       | c # r \<Rightarrow> is_space c \<and> strip r \<noteq> []))"

definition spec_entry :: "int \<times> string \<Rightarrow> toc_entry" where
  "spec_entry il = (int (hash_run (snd il)), strip (drop (hash_run (snd il)) (strip (snd il))), fst il)"

definition spec_toc :: "string \<Rightarrow> toc_entry list" where
  "spec_toc md_text =
     map spec_entry (filter (\<lambda>il. spec_is_header (snd il)) (enumerate1 (splitlines md_text)))"


section \<open>The operating system as the program sees it\<close>

text \<open>
  The program reaches the file system through \<^verbatim>\<open>os.listdir\<close>, \<^verbatim>\<open>os.path.isfile\<close> and
  \<^verbatim>\<open>open(...).read()\<close>. A file system state answers these three calls. A directory entry
  is either a file of some type or a symbolic link, which records the type of the file it
  finally resolves to (\<open>None\<close> for a dangling link or a link loop). \<^verbatim>\<open>read_file\<close> is the
  outcome of opening the path in text mode with \<^verbatim>\<open>encoding="utf-8", errors="replace"\<close> and
  reading it to the end: the decoded text (undecodable bytes are replaced, so decoding
  itself never raises), or the \<^verbatim>\<open>OSError\<close> raised by \<^verbatim>\<open>open\<close> or \<^verbatim>\<open>read\<close>.
\<close>

datatype os_error = FileNotFoundError | PermissionError | IsADirectoryError | NotADirectoryError

datatype file_type = Regular | Directory | Special

datatype node = Plain file_type | Symlink "file_type option"

record filesystem =
  os_listdir :: "string \<Rightarrow> os_error + string list"
  os_lstat :: "string \<Rightarrow> node option"
  read_file :: "string \<Rightarrow> os_error + string"

definition os_stat :: "filesystem \<Rightarrow> string \<Rightarrow> file_type option" where
  \<comment> \<open>\<^verbatim>\<open>os.stat\<close> follows symbolic links; \<open>None\<close> is the \<^verbatim>\<open>OSError\<close>\<close>
  "os_stat fs path =
     (case os_lstat fs path of
        None \<Rightarrow> None
      | Some (Plain t) \<Rightarrow> Some t
      | Some (Symlink target) \<Rightarrow> target)"

definition os_path_isfile :: "filesystem \<Rightarrow> string \<Rightarrow> bool" where
  \<comment> \<open>\<^verbatim>\<open>os.path.isfile\<close>: \<^verbatim>\<open>S_ISREG\<close> of \<^verbatim>\<open>os.stat\<close>, \<^verbatim>\<open>False\<close> when \<^verbatim>\<open>os.stat\<close> raises\<close>
  "os_path_isfile fs path = (os_stat fs path = Some Regular)"

definition os_path_join :: "string \<Rightarrow> string \<Rightarrow> string" where
  \<comment> \<open>\<^verbatim>\<open>posixpath.join(a, b)\<close>\<close>
  "os_path_join a b =
     (if b \<noteq> [] \<and> hd b = CHR ''/'' then b
      else if a = [] \<or> last a = CHR ''/'' then a @ b
      else a @ ''/'' @ b)"

definition rfind :: "string \<Rightarrow> char \<Rightarrow> int" where
  \<comment> \<open>\<^verbatim>\<open>p.rfind(c)\<close>: the index of the last \<^verbatim>\<open>c\<close>, or -1\<close>
  "rfind p c =
     (if c \<in> set p then int (length p) - 1 - int (length (takeWhile (\<lambda>x. x \<noteq> c) (rev p)))
      else - 1)"

definition os_path_splitext :: "string \<Rightarrow> string \<times> string" where
  \<comment> \<open>\<^verbatim>\<open>posixpath.splitext\<close>: the extension starts at the last dot of the last path component,
      unless only dots precede it there\<close>
  "os_path_splitext p =
     (let sepIndex = rfind p (CHR ''/'');
          dotIndex = rfind p (CHR ''.'')
      in if dotIndex > sepIndex \<and>
            (\<exists>k\<in>set [sepIndex + 1..dotIndex - 1]. p ! nat k \<noteq> CHR ''.'')
         then (take (nat dotIndex) p, drop (nat dotIndex) p)
         else (p, []))"

definition read_text :: "filesystem \<Rightarrow> string \<Rightarrow> os_error + string" where
  "read_text fs path = read_file fs path"

section \<open>File inventory: \<^verbatim>\<open>list_files\<close>\<close>

definition MD_EXT :: "string set" where
  "MD_EXT = {''.md'', ''.markdown''}"

definition IMG_EXT :: "string set" where
  "IMG_EXT = {''.png'', ''.jpg'', ''.jpeg'', ''.gif'', ''.svg''}"

definition file_ext :: "string \<Rightarrow> string" where
  \<comment> \<open>\<^verbatim>\<open>os.path.splitext(name)[1].lower()\<close>\<close>
  "file_ext name = lower (snd (os_path_splitext name))"

definition list_step ::
  "filesystem \<Rightarrow> string \<Rightarrow> string list \<times> string list \<Rightarrow> string \<Rightarrow> string list \<times> string list" where
  \<comment> \<open>the body of the loop of \<^verbatim>\<open>list_files\<close>, for one name\<close>
  "list_step fs root acc name =
     (let p = os_path_join root name
      in if \<not> os_path_isfile fs p then acc
         else if file_ext name \<in> MD_EXT then (fst acc @ [p], snd acc)
         else if file_ext name \<in> IMG_EXT then (fst acc, snd acc @ [p])
         else acc)"

definition list_files :: "filesystem \<Rightarrow> string \<Rightarrow> os_error + string list \<times> string list" where
  "list_files fs root =
     (case os_listdir fs root of
        Inl e \<Rightarrow> Inl e
      | Inr names \<Rightarrow> Inr (foldl (list_step fs root) ([], []) (sort names)))"

section \<open>Pagination: \<^verbatim>\<open>paginate\<close>\<close>

text \<open>
  \<^verbatim>\<open>paginate\<close> prints. Its model returns what it shows: the list of screens, each with the
  title block printed above the body (when the title is not empty) and the body lines.
  Between two screens the program waits for the Enter key; the model is the run in which the
  reader keeps pressing it. \<^verbatim>\<open>textwrap.wrap\<close> is library code: it is the parameter \<open>wrap\<close>,
  called as \<open>wrap cols raw_line\<close>. \<^verbatim>\<open>get_terminal_size(fallback=(100, 30))\<close> is the parameter
  \<open>term\<close>. The \<^verbatim>\<open>while\<close> loop is a partial function: \<open>None\<close> is a loop that never ends.
\<close>

record page =
  chrome :: "string option"
  body :: "string list"

definition title_block :: "string \<Rightarrow> string option" where
  \<comment> \<open>\<^verbatim>\<open>if title: print(f"{title}\n" + "-" * (len(title) + 2))\<close>\<close>
  "title_block title =
     (if title \<noteq> [] then Some (title @ [LF] @ replicate (length title + 2) (CHR ''-''))
      else None)"

definition wrap_line :: "(int \<Rightarrow> string \<Rightarrow> string list) \<Rightarrow> int \<Rightarrow> string \<Rightarrow> string list" where
  \<comment> \<open>\<^verbatim>\<open>textwrap.wrap(raw_line, width=cols) or [""]\<close>\<close>
  "wrap_line wrap cols raw_line =
     (let wrapped = wrap cols raw_line in if wrapped = [] then [[]] else wrapped)"

definition wrap_text :: "(int \<Rightarrow> string \<Rightarrow> string list) \<Rightarrow> int \<Rightarrow> string \<Rightarrow> string list" where
  \<comment> \<open>the \<^verbatim>\<open>for\<close> loop that extends \<^verbatim>\<open>lines\<close>\<close>
  "wrap_text wrap cols text =
     foldl (\<lambda>lines raw_line. lines @ wrap_line wrap cols raw_line) [] (splitlines text)"

partial_function (option) page_loop ::
  "string \<Rightarrow> int \<Rightarrow> string list \<Rightarrow> int \<Rightarrow> page list \<Rightarrow> page list option" where
  "page_loop title rows lines idx shown =
     (if idx < int (length lines)
      then page_loop title rows lines (min (idx + rows) (int (length lines)))
             (shown @ [\<lparr>chrome = title_block title,
                        body = map (\<lambda>i. lines ! nat i)
                                 [idx..min (idx + rows) (int (length lines)) - 1]\<rparr>])
      else Some shown)"

declare page_loop.simps [code]

definition viewport :: "int \<times> int \<Rightarrow> int \<Rightarrow> int \<Rightarrow> int \<times> int" where
  "viewport term width height = (if width \<le> 0 \<or> height \<le> 0 then term else (width, height))"

definition paginate ::
  "(int \<Rightarrow> string \<Rightarrow> string list) \<Rightarrow> int \<times> int \<Rightarrow> string \<Rightarrow> string \<Rightarrow> int \<Rightarrow> int \<Rightarrow>
   page list option" where
  "paginate wrap term text title width height =
     (let cols = fst (viewport term width height);
          rows = max 10 (snd (viewport term width height) - 3);
          lines = wrap_text wrap cols text
      in page_loop title rows lines 0 [])"

text \<open>The consecutive chunks of \<open>n\<close> elements of a list; only the last one may be shorter.\<close>

fun chunks :: "nat \<Rightarrow> 'a list \<Rightarrow> 'a list list" where
  "chunks n xs = (if n = 0 \<or> xs = [] then [] else take n xs # chunks n (drop n xs))"

declare chunks.simps [simp del]

text \<open>
  An instance of the parameter \<open>wrap\<close> for examples: a line is cut into pieces of \<open>cols\<close>
  characters, which is what \<^verbatim>\<open>textwrap.wrap\<close> returns for a line without white space
  and without hyphens; the empty line gives no piece.
\<close>

definition cut_wrap :: "int \<Rightarrow> string \<Rightarrow> string list" where
  "cut_wrap cols line = chunks (nat cols) line"

section \<open>Search: \<^verbatim>\<open>search_all\<close>\<close>

text \<open>
  \<^verbatim>\<open>re.sub(re.escape(query), lambda m: f"[{m.group(0)}]", snippet, flags=re.IGNORECASE)\<close>:
  the escaped query is a literal pattern. \<^verbatim>\<open>re.sub\<close> scans the text from the left; where the
  pattern matches, the match is handed to the replacement function and the scan resumes
  behind it, elsewhere one character is copied. The empty pattern matches once at every
  position, the end included.
\<close>

datatype segment = Copy char | Hit string

fun ci_prefix :: "string \<Rightarrow> string \<Rightarrow> bool" where
  \<comment> \<open>the literal pattern matches at the start of the text, ignoring case\<close>
  "ci_prefix [] s = True"
| "ci_prefix (p # ps) [] = False"
| "ci_prefix (p # ps) (c # cs) = (lower_char p = lower_char c \<and> ci_prefix ps cs)"

function re_scan :: "string \<Rightarrow> string \<Rightarrow> segment list" where
  "re_scan q s =
     (if ci_prefix q s
      then (if q = []
            then (case s of [] \<Rightarrow> [Hit []] | c # cs \<Rightarrow> Hit [] # Copy c # re_scan q cs)
            else Hit (take (length q) s) # re_scan q (drop (length q) s))
      else (case s of [] \<Rightarrow> [] | c # cs \<Rightarrow> Copy c # re_scan q cs))"
  by pat_completeness auto
termination
proof (relation "measure (\<lambda>(q, s). length s)")
  show "wf (measure (\<lambda>(q, s). length s))" by simp
next
  fix q s :: string
  assume "ci_prefix q s" and "q \<noteq> []"
  then have "s \<noteq> []" by (cases q; cases s) auto
  with \<open>q \<noteq> []\<close> show "((q, drop (length q) s), (q, s)) \<in> measure (\<lambda>(q, s). length s)"
    by simp
qed auto

declare re_scan.simps [simp del]

fun replacement :: "segment \<Rightarrow> string" where
  \<comment> \<open>copied text, and \<^verbatim>\<open>lambda m: f"[{m.group(0)}]"\<close> on a match\<close>
  "replacement (Copy c) = [c]"
| "replacement (Hit m) = ''['' @ m @ '']''"

definition highlight :: "string \<Rightarrow> string \<Rightarrow> string" where
  "highlight query snippet = concat (map replacement (re_scan query snippet))"

definition snippet_window :: "string list \<Rightarrow> int \<Rightarrow> int \<Rightarrow> string" where
  \<comment> \<open>\<^verbatim>\<open>start = max(1, i - context); end = min(len(lines), i + context)\<close>, then
      \<^verbatim>\<open>"\n".join(lines[start-1:end])\<close>\<close>
  "snippet_window lines i context =
     join_lines (py_slice lines (max 1 (i - context) - 1) (min (int (length lines)) (i + context)))"

type_synonym search_match = "string \<times> int \<times> string"

definition match_step ::
  "string \<Rightarrow> string \<Rightarrow> int \<Rightarrow> string list \<Rightarrow> search_match list \<Rightarrow> int \<times> string \<Rightarrow>
   search_match list" where
  \<comment> \<open>the body of the inner loop of \<^verbatim>\<open>search_all\<close>, for line \<^verbatim>\<open>i\<close> of the file \<^verbatim>\<open>p\<close>\<close>
  "match_step p query context lines results il =
     (if str_in (lower query) (lower (snd il))
      then results @ [(p, fst il, highlight query (snippet_window lines (fst il) context))]
      else results)"

definition search_doc ::
  "string \<Rightarrow> string \<Rightarrow> int \<Rightarrow> string \<Rightarrow> search_match list \<Rightarrow> search_match list" where
  "search_doc p query context text results =
     foldl (match_step p query context (splitlines text)) results (enumerate1 (splitlines text))"

fun search_loop ::
  "filesystem \<Rightarrow> string \<Rightarrow> int \<Rightarrow> string list \<Rightarrow> search_match list \<Rightarrow>
   os_error + search_match list" where
  \<comment> \<open>the outer loop; an exception of \<^verbatim>\<open>read_text\<close> leaves \<^verbatim>\<open>search_all\<close>\<close>
  "search_loop fs query context [] results = Inr results"
| "search_loop fs query context (p # ps) results =
     (case read_text fs p of
        Inl e \<Rightarrow> Inl e
      | Inr text \<Rightarrow> search_loop fs query context ps (search_doc p query context text results))"

definition search_all ::
  "filesystem \<Rightarrow> string list \<Rightarrow> string \<Rightarrow> int \<Rightarrow> os_error + search_match list" where
  "search_all fs md_paths query context = search_loop fs query context md_paths []"

text \<open>
  Notions used to state what the search returns: the lines of a document that can be read,
  an occurrence of the query at an offset of a text (ignoring case), the offsets at which
  the matches of a scan start, the text a segment was cut from, and the matched texts.
\<close>

definition doc_lines :: "filesystem \<Rightarrow> string \<Rightarrow> string list" where
  "doc_lines fs p = (case read_text fs p of Inr text \<Rightarrow> splitlines text | Inl e \<Rightarrow> [])"

definition occurs_at :: "string \<Rightarrow> string \<Rightarrow> nat \<Rightarrow> bool" where
  "occurs_at q s i =
     (i + length q \<le> length s \<and> lower (take (length q) (drop i s)) = lower q)"

fun hit_starts :: "nat \<Rightarrow> segment list \<Rightarrow> nat list" where
  "hit_starts k [] = []"
| "hit_starts k (Copy c # r) = hit_starts (Suc k) r"
| "hit_starts k (Hit m # r) = k # hit_starts (k + length m) r"

fun source_text :: "segment \<Rightarrow> string" where
  "source_text (Copy c) = [c]"
| "source_text (Hit m) = m"

fun hit_texts :: "segment list \<Rightarrow> string list" where
  "hit_texts [] = []"
| "hit_texts (Copy c # r) = hit_texts r"
| "hit_texts (Hit m # r) = m # hit_texts r"

text \<open>
  The two classes of the inventory, as predicates on a name of the directory, and a small
  directory used in examples: regular files, a link to a regular file, a dangling link and a
  subdirectory.
\<close>

definition is_md :: "filesystem \<Rightarrow> string \<Rightarrow> string \<Rightarrow> bool" where
  "is_md fs root name = (os_path_isfile fs (os_path_join root name) \<and> file_ext name \<in> MD_EXT)"

definition is_img :: "filesystem \<Rightarrow> string \<Rightarrow> string \<Rightarrow> bool" where
  "is_img fs root name = (os_path_isfile fs (os_path_join root name) \<and> file_ext name \<in> IMG_EXT)"

definition demo_fs :: filesystem where
  "demo_fs =
     \<lparr>os_listdir =
        (\<lambda>d. if d = ''docs''
             then Inr [''notes.txt'', ''b.MD'', ''x.PNG'', ''link.md'', ''sub.md'', ''a.md'',
                       ''gone.md'', ''.md'']
             else Inl FileNotFoundError),
      os_lstat =
        map_of [(''docs/notes.txt'', Plain Regular), (''docs/b.MD'', Plain Regular),
                (''docs/x.PNG'', Plain Regular), (''docs/link.md'', Symlink (Some Regular)),
                (''docs/sub.md'', Plain Directory), (''docs/a.md'', Plain Regular),
                (''docs/gone.md'', Symlink None), (''docs/.md'', Plain Regular)],
      read_file =
        (\<lambda>p. if p = ''docs/a.md''
             then Inr (''The Cat sat'' @ [LF] @ ''dog'' @ [LF] @ ''concat'' @ [LF] @ ''banana'')
             else if p = ''docs/link.md'' then Inr ''# Cats''
             else if p = ''docs/b.MD'' then Inl PermissionError
             else Inl FileNotFoundError)\<rparr>"

section \<open>Properties of the text primitives\<close>

lemma is_linebreak_LF: "is_linebreak LF"
  by (simp add: is_linebreak_def LF_def)

lemma splitlines_Nil: "splitlines [] = []"
  by (simp add: splitlines.simps)

lemma splitlines_last:
  assumes "s \<noteq> []" and "dropWhile (\<lambda>c. \<not> is_linebreak c) s = []"
  shows "splitlines s = [s]"
  by (subst splitlines.simps) (simp only: assms if_False list.case)

lemma splitlines_Cons:
  assumes "dropWhile (\<lambda>c. \<not> is_linebreak c) s = c # r"
  shows "splitlines s =
         takeWhile (\<lambda>c. \<not> is_linebreak c) s #
         splitlines (if c = CR \<and> r \<noteq> [] \<and> hd r = LF then tl r else r)"
proof -
  from assms have "s \<noteq> []" by auto
  then show ?thesis
    by (subst splitlines.simps) (simp only: assms if_False list.case)
qed

lemma splitlines_no_linebreak:
  "l \<in> set (splitlines s) \<Longrightarrow> c \<in> set l \<Longrightarrow> \<not> is_linebreak c"
proof (induction s rule: splitlines.induct)
  case (1 s)
  show ?case
  proof (cases "s = []")
    case True
    with "1.prems" show ?thesis by (simp add: splitlines.simps)
  next
    case False
    show ?thesis
    proof (cases "dropWhile (\<lambda>c. \<not> is_linebreak c) s")
      case Nil
      then have "\<forall>x\<in>set s. \<not> is_linebreak x" by (simp add: dropWhile_eq_Nil_conv)
      moreover from "1.prems"(1) have "l = s"
        by (simp add: splitlines_last [OF False Nil])
      ultimately show ?thesis using "1.prems"(2) by blast
    next
      case (Cons d r)
      let ?rest = "if d = CR \<and> r \<noteq> [] \<and> hd r = LF then tl r else r"
      from "1.prems"(1)
      have "l = takeWhile (\<lambda>c. \<not> is_linebreak c) s \<or> l \<in> set (splitlines ?rest)"
        by (simp add: splitlines_Cons [OF Cons])
      then show ?thesis
      proof
        assume "l = takeWhile (\<lambda>c. \<not> is_linebreak c) s"
        with "1.prems"(2) show ?thesis by (auto dest: set_takeWhileD)
      next
        assume "l \<in> set (splitlines ?rest)"
        with "1.IH" [OF False Cons] "1.prems"(2) show ?thesis by blast
      qed
    qed
  qed
qed

lemma set_strip: "set (strip s) \<subseteq> set s"
proof -
  have "set (strip s) \<subseteq> set (dropWhile is_space s)"
    unfolding strip_def by (metis set_rev set_dropWhileD subsetI)
  then show ?thesis by (meson set_dropWhileD subset_iff)
qed

lemma strip_last: "strip s \<noteq> [] \<Longrightarrow> \<not> is_space (last (strip s))"
proof -
  assume ne: "strip s \<noteq> []"
  let ?z = "dropWhile is_space (rev (dropWhile is_space s))"
  from ne have z: "?z \<noteq> []" by (simp add: strip_def)
  then have "\<not> is_space (hd ?z)" by (rule hd_dropWhile)
  moreover have "last (strip s) = hd ?z" using z by (simp add: strip_def last_rev)
  ultimately show ?thesis by simp
qed

lemma strip_eq_Nil: "strip r = [] \<longleftrightarrow> (\<forall>c\<in>set r. is_space c)"
proof
  assume "strip r = []"
  then have "dropWhile is_space (rev (dropWhile is_space r)) = []" by (simp add: strip_def)
  then have "\<forall>c\<in>set (dropWhile is_space r). is_space c"
    by (simp add: dropWhile_eq_Nil_conv)
  moreover have "dropWhile is_space r \<noteq> [] \<Longrightarrow> \<not> is_space (hd (dropWhile is_space r))"
    by (rule hd_dropWhile)
  ultimately have "dropWhile is_space r = []" by (metis hd_in_set)
  then show "\<forall>c\<in>set r. is_space c" by (simp add: dropWhile_eq_Nil_conv)
next
  assume "\<forall>c\<in>set r. is_space c"
  then have "dropWhile is_space r = []" by (simp add: dropWhile_eq_Nil_conv)
  then show "strip r = []" by (simp only: strip_def rev.simps dropWhile.simps)
qed

lemma strip_dropWhile: "strip (dropWhile is_space x) = strip x"
  by (simp add: strip_def dropWhile_idem)

lemma take_eq_replicate:
  "take n t = replicate n c \<longleftrightarrow> n \<le> length (takeWhile (\<lambda>x. x = c) t)"
proof (induction t arbitrary: n)
  case Nil
  then show ?case by (cases n) auto
next
  case (Cons a t)
  then show ?case by (cases n) auto
qed

section \<open>Table of contents\<close>

lemma hash_not_space: "\<not> is_space (CHR ''#'')"
  by (simp add: is_space_def)

lemma match_tail_hash: "match_tail (CHR ''#'' # r) = None"
  by (simp add: match_tail_def hash_not_space)

lemma match_hashes_run:
  fixes t :: string
  defines "k \<equiv> length (takeWhile (\<lambda>c. c = CHR ''#'') t)"
  shows "match_hashes j t =
         (if 1 \<le> k \<and> k \<le> j
          then map_option (\<lambda>g2. (take k t, g2)) (match_tail (drop k t))
          else None)"
proof (induction j)
  case 0
  show ?case by auto
next
  case (Suc j)
  consider (less) "Suc j < k" | (eq) "Suc j = k" | (more) "k < Suc j" by linarith
  then show ?case
  proof cases
    case less
    then have tk: "take (Suc j) t = replicate (Suc j) (CHR ''#'')"
      unfolding take_eq_replicate by (simp add: k_def)
    from less have "Suc j < length (takeWhile (\<lambda>c. c = CHR ''#'') t)" by (simp add: k_def)
    then have "drop (Suc j) t \<noteq> [] \<and> hd (drop (Suc j) t) = CHR ''#''"
      by (metis (mono_tags, lifting) drop_eq_Nil hd_drop_conv_nth length_takeWhile_le
          not_le nth_mem order_less_le_trans set_takeWhileD takeWhile_nth)
    then obtain r where "drop (Suc j) t = CHR ''#'' # r"
      by (cases "drop (Suc j) t") auto
    then have "match_tail (drop (Suc j) t) = None" by (simp add: match_tail_hash)
    with tk Suc less show ?thesis by simp
  next
    case eq
    then have tk: "take (Suc j) t = replicate (Suc j) (CHR ''#'')"
      unfolding take_eq_replicate by (simp add: k_def)
    from eq have nk: "\<not> k \<le> j" by simp
    show ?thesis
      using tk Suc nk eq [symmetric] by (simp split: option.splits)
  next
    case more
    then have "take (Suc j) t \<noteq> replicate (Suc j) (CHR ''#'')"
      unfolding take_eq_replicate by (simp add: k_def)
    with Suc more show ?thesis by auto
  qed
qed

lemma re_match_header_spec:
  assumes "LF \<notin> set l"
  shows "re_match_header (strip l) =
         (if spec_is_header l
          then Some (take (hash_run l) (strip l), dropWhile is_space (drop (hash_run l) (strip l)))
          else None)"
proof -
  let ?t = "strip l"
  let ?k = "hash_run l"
  have k: "?k = length (takeWhile (\<lambda>c. c = CHR ''#'') ?t)" by (simp add: hash_run_def)
  have noLF: "LF \<notin> set (drop ?k ?t)"
    using assms set_strip [of l] by (meson in_set_dropD subsetD)
  have tail: "match_tail (drop ?k ?t) =
        (case drop ?k ?t of [] \<Rightarrow> None
         | c # r \<Rightarrow> if is_space c then Some (dropWhile is_space (drop ?k ?t)) else None)"
  proof -
    have "LF \<notin> set (dropWhile is_space (drop ?k ?t))"
      using noLF by (meson set_dropWhileD)
    then have "takeWhile (\<lambda>c. c \<noteq> LF) (dropWhile is_space (drop ?k ?t)) =
               dropWhile is_space (drop ?k ?t)"
      by (metis (mono_tags, lifting) takeWhile_eq_all_conv)
    then show ?thesis by (simp add: match_tail_def split: list.splits)
  qed
  have rest: "strip r \<noteq> []" if d: "drop ?k ?t = c # r" and sp: "is_space c" for c r
  proof
    assume "strip r = []"
    then have all: "\<forall>x\<in>set r. is_space x" by (simp add: strip_eq_Nil)
    from d have ne: "?t \<noteq> []" by auto
    then have "last ?t = last (drop ?k ?t)" using d by (metis drop_eq_Nil last_drop list.discI not_le)
    also have "\<dots> = last (c # r)" by (simp add: d)
    finally have "last ?t \<in> set (c # r)" by (metis last_in_set list.discI)
    with all sp have "is_space (last ?t)" by auto
    with strip_last [OF ne] show False by simp
  qed
  show ?thesis
    unfolding re_match_header_def match_hashes_run k [symmetric] tail spec_is_header_def
    using rest by (auto split: list.splits)
qed

lemma toc_step_spec:
  assumes "LF \<notin> set (snd il)"
  shows "toc_step toc il = (if spec_is_header (snd il) then toc @ [spec_entry il] else toc)"
proof -
  have "int (length (take (hash_run (snd il)) (strip (snd il)))) = int (hash_run (snd il))"
    by (simp add: hash_run_def min_absorb2 length_takeWhile_le)
  then show ?thesis
    by (simp add: toc_step_def re_match_header_spec [OF assms] spec_entry_def strip_dropWhile)
qed

lemma foldl_toc_step:
  assumes "\<forall>il\<in>set xs. LF \<notin> set (snd il)"
  shows "foldl toc_step toc xs = toc @ map spec_entry (filter (\<lambda>il. spec_is_header (snd il)) xs)"
  using assms
proof (induction xs arbitrary: toc)
  case Nil
  show ?case by simp
next
  case (Cons il xs)
  then show ?case by (simp add: toc_step_spec)
qed

lemma enumerate1_snd: "il \<in> set (enumerate1 xs) \<Longrightarrow> snd il \<in> set xs"
  by (metis enumerate1_def prod.collapse set_zip_rightD)

text \<open>
  Claim C6. \<^verbatim>\<open>build_toc\<close> returns, in document order, exactly one entry for every line
  that, once trimmed, starts with one to six \<^verbatim>\<open>#\<close> followed by a white-space character and
  then by text that is not empty; the level is the number of leading \<^verbatim>\<open>#\<close>, the title is
  the trimmed remainder, and the line number counts every line from 1. No other line gives
  an entry. The lines \<^verbatim>\<open># A\<close>, \<^verbatim>\<open>text\<close>, \<^verbatim>\<open>## B\<close> give \<^verbatim>\<open>[(1, "A", 1), (2, "B", 3)]\<close>.
\<close>

theorem build_toc_headers:
  "build_toc md_text = spec_toc md_text \<and>
   build_toc (''# A'' @ [LF] @ ''text'' @ [LF] @ ''## B'') = [(1, ''A'', 1), (2, ''B'', 3)]"
proof
  have "\<forall>il\<in>set (enumerate1 (splitlines md_text)). LF \<notin> set (snd il)"
    using enumerate1_snd splitlines_no_linebreak is_linebreak_LF by blast
  then show "build_toc md_text = spec_toc md_text"
    by (simp add: build_toc_def spec_toc_def foldl_toc_step)
next
  show "build_toc (''# A'' @ [LF] @ ''text'' @ [LF] @ ''## B'') = [(1, ''A'', 1), (2, ''B'', 3)]"
    by code_simp
qed

section \<open>File inventory\<close>

lemma ext_sets_disjoint: "MD_EXT \<inter> IMG_EXT = {}"
  by (simp add: MD_EXT_def IMG_EXT_def)

lemma is_md_not_img: "is_md fs root n \<Longrightarrow> \<not> is_img fs root n"
  using ext_sets_disjoint by (auto simp: is_md_def is_img_def)

lemma list_step_cases:
  "list_step fs root acc n =
     (if is_md fs root n then (fst acc @ [os_path_join root n], snd acc)
      else if is_img fs root n then (fst acc, snd acc @ [os_path_join root n])
      else acc)"
  by (auto simp: list_step_def is_md_def is_img_def Let_def)

lemma foldl_list_step:
  "foldl (list_step fs root) acc ns =
     (fst acc @ map (os_path_join root) (filter (is_md fs root) ns),
      snd acc @ map (os_path_join root) (filter (is_img fs root) ns))"
proof (induction ns arbitrary: acc)
  case Nil
  show ?case by simp
next
  case (Cons n ns)
  have step: "list_step fs root acc n =
     (if is_md fs root n then (fst acc @ [os_path_join root n], snd acc)
      else if is_img fs root n then (fst acc, snd acc @ [os_path_join root n])
      else acc)"
    by (rule list_step_cases)
  show ?case
    by (simp add: Cons.IH step is_md_not_img)
qed

lemma list_files_Inr:
  assumes "list_files fs root = Inr (mds, imgs)"
  obtains names where "os_listdir fs root = Inr names"
    and "mds = map (os_path_join root) (filter (is_md fs root) (sort names))"
    and "imgs = map (os_path_join root) (filter (is_img fs root) (sort names))"
proof (cases "os_listdir fs root")
  case (Inl e)
  with assms show ?thesis by (simp add: list_files_def)
next
  case (Inr names)
  with assms have "mds = map (os_path_join root) (filter (is_md fs root) (sort names))"
    and "imgs = map (os_path_join root) (filter (is_img fs root) (sort names))"
    by (simp_all add: list_files_def foldl_list_step)
  with Inr that show ?thesis by blast
qed

lemma sorted_filter_sort: "sorted (filter P (sort (ns :: string list)))"
  using sorted_filter [of "\<lambda>x. x" "sort ns" P] by simp

lemma os_path_join_inject:
  assumes "CHR ''/'' \<notin> set a" and "CHR ''/'' \<notin> set b"
    and "os_path_join root a = os_path_join root b"
  shows "a = b"
proof -
  have a: "\<not> (a \<noteq> [] \<and> hd a = CHR ''/'')" using assms(1) by (cases a) auto
  have b: "\<not> (b \<noteq> [] \<and> hd b = CHR ''/'')" using assms(2) by (cases b) auto
  from assms(3) show ?thesis
    unfolding os_path_join_def using a b by (auto split: if_splits)
qed

text \<open>
  Claim C8. When \<^verbatim>\<open>list_files\<close> returns, its Markdown list is the list of paths
  \<^verbatim>\<open>os.path.join(root, name)\<close> of exactly those names of the directory, taken in ascending
  lexicographic order of the code points (upper and lower case differ), that
  \<^verbatim>\<open>os.path.isfile\<close> accepts and whose extension in lower case is in \<^verbatim>\<open>MD_EXT\<close>; the image
  list likewise with \<^verbatim>\<open>IMG_EXT\<close>. So both lists are sorted by file name, a name of any
  casing of the extension is listed if and only if the lower-case extension is in the set,
  the two sets are disjoint and no name is in both lists, and no path either when the names
  of the directory hold no slash.
\<close>

theorem list_files_sorted_disjoint:
  assumes "list_files fs root = Inr (mds, imgs)"
  shows "\<exists>names ms is.
           os_listdir fs root = Inr names \<and>
           ms = filter (\<lambda>n. os_path_isfile fs (os_path_join root n) \<and>
                            lower (snd (os_path_splitext n)) \<in> MD_EXT) (sort names) \<and>
           is = filter (\<lambda>n. os_path_isfile fs (os_path_join root n) \<and>
                            lower (snd (os_path_splitext n)) \<in> IMG_EXT) (sort names) \<and>
           mds = map (os_path_join root) ms \<and> imgs = map (os_path_join root) is \<and>
           sorted ms \<and> sorted is \<and>
           (\<forall>n\<in>set names.
              os_path_isfile fs (os_path_join root n) \<longrightarrow>
                (n \<in> set ms \<longleftrightarrow> lower (snd (os_path_splitext n)) \<in> MD_EXT) \<and>
                (n \<in> set is \<longleftrightarrow> lower (snd (os_path_splitext n)) \<in> IMG_EXT)) \<and>
           (\<forall>n\<in>set ms. lower (snd (os_path_splitext n)) \<in> MD_EXT) \<and>
           (\<forall>n\<in>set is. lower (snd (os_path_splitext n)) \<in> IMG_EXT) \<and>
           MD_EXT \<inter> IMG_EXT = {} \<and> set ms \<inter> set is = {} \<and>
           ((\<forall>n\<in>set names. CHR ''/'' \<notin> set n) \<longrightarrow> set mds \<inter> set imgs = {})"
proof -
  from assms obtain names where ls: "os_listdir fs root = Inr names"
    and mds: "mds = map (os_path_join root) (filter (is_md fs root) (sort names))"
    and imgs: "imgs = map (os_path_join root) (filter (is_img fs root) (sort names))"
    by (rule list_files_Inr)
  let ?ms = "filter (is_md fs root) (sort names)"
  let ?is = "filter (is_img fs root) (sort names)"
  have md_eq: "is_md fs root = (\<lambda>n. os_path_isfile fs (os_path_join root n) \<and>
                                    lower (snd (os_path_splitext n)) \<in> MD_EXT)"
    by (rule ext) (simp add: is_md_def file_ext_def)
  have img_eq: "is_img fs root = (\<lambda>n. os_path_isfile fs (os_path_join root n) \<and>
                                      lower (snd (os_path_splitext n)) \<in> IMG_EXT)"
    by (rule ext) (simp add: is_img_def file_ext_def)
  have ms: "?ms = filter (\<lambda>n. os_path_isfile fs (os_path_join root n) \<and>
                              lower (snd (os_path_splitext n)) \<in> MD_EXT) (sort names)"
    by (simp only: md_eq)
  have "is": "?is = filter (\<lambda>n. os_path_isfile fs (os_path_join root n) \<and>
                                lower (snd (os_path_splitext n)) \<in> IMG_EXT) (sort names)"
    by (simp only: img_eq)
  have iff: "\<forall>n\<in>set names.
      os_path_isfile fs (os_path_join root n) \<longrightarrow>
        (n \<in> set ?ms \<longleftrightarrow> lower (snd (os_path_splitext n)) \<in> MD_EXT) \<and>
        (n \<in> set ?is \<longleftrightarrow> lower (snd (os_path_splitext n)) \<in> IMG_EXT)"
    by (simp add: is_md_def is_img_def file_ext_def)
  have md: "\<forall>n\<in>set ?ms. lower (snd (os_path_splitext n)) \<in> MD_EXT"
    by (simp add: is_md_def file_ext_def)
  have img: "\<forall>n\<in>set ?is. lower (snd (os_path_splitext n)) \<in> IMG_EXT"
    by (simp add: is_img_def file_ext_def)
  have dis: "set ?ms \<inter> set ?is = {}"
    using is_md_not_img by auto
  have paths: "set mds \<inter> set imgs = {}" if slash: "\<forall>n\<in>set names. CHR ''/'' \<notin> set n"
  proof (rule ccontr)
    assume "set mds \<inter> set imgs \<noteq> {}"
    then obtain a b where a: "a \<in> set ?ms" and b: "b \<in> set ?is"
      and eq: "os_path_join root a = os_path_join root b"
      unfolding mds imgs by auto
    from a b slash have "CHR ''/'' \<notin> set a" "CHR ''/'' \<notin> set b" by auto
    with eq have "a = b" using os_path_join_inject by blast
    with a b dis show False by blast
  qed
  have sm: "sorted ?ms" and si: "sorted ?is" by (rule sorted_filter_sort)+
  show ?thesis
    by (intro exI [of _ names] exI [of _ ?ms] exI [of _ ?is] conjI impI)
       (fact ls ms "is" mds imgs sm si iff md img ext_sets_disjoint dis paths)+
qed

theorem list_files_sorted_disjoint_witness:
  "list_files demo_fs ''docs'' =
     Inr ([''docs/a.md'', ''docs/b.MD'', ''docs/link.md''], [''docs/x.PNG'']) \<and>
   (\<exists>names ms is.
      os_listdir demo_fs ''docs'' = Inr names \<and>
      ms = filter (\<lambda>n. os_path_isfile demo_fs (os_path_join ''docs'' n) \<and>
                       lower (snd (os_path_splitext n)) \<in> MD_EXT) (sort names) \<and>
      is = filter (\<lambda>n. os_path_isfile demo_fs (os_path_join ''docs'' n) \<and>
                       lower (snd (os_path_splitext n)) \<in> IMG_EXT) (sort names) \<and>
      [''docs/a.md'', ''docs/b.MD'', ''docs/link.md''] = map (os_path_join ''docs'') ms \<and>
      [''docs/x.PNG''] = map (os_path_join ''docs'') is \<and>
      sorted ms \<and> sorted is \<and>
      (\<forall>n\<in>set names.
         os_path_isfile demo_fs (os_path_join ''docs'' n) \<longrightarrow>
           (n \<in> set ms \<longleftrightarrow> lower (snd (os_path_splitext n)) \<in> MD_EXT) \<and>
           (n \<in> set is \<longleftrightarrow> lower (snd (os_path_splitext n)) \<in> IMG_EXT)) \<and>
      (\<forall>n\<in>set ms. lower (snd (os_path_splitext n)) \<in> MD_EXT) \<and>
      (\<forall>n\<in>set is. lower (snd (os_path_splitext n)) \<in> IMG_EXT) \<and>
      MD_EXT \<inter> IMG_EXT = {} \<and> set ms \<inter> set is = {} \<and>
      ((\<forall>n\<in>set names. CHR ''/'' \<notin> set n) \<longrightarrow>
         set [''docs/a.md'', ''docs/b.MD'', ''docs/link.md''] \<inter> set [''docs/x.PNG''] = {}))"
proof -
  have run: "list_files demo_fs ''docs'' =
     Inr ([''docs/a.md'', ''docs/b.MD'', ''docs/link.md''], [''docs/x.PNG''])"
    by code_simp
  show ?thesis by (rule conjI [OF run list_files_sorted_disjoint [OF run]])
qed

text \<open>
  Claim C9, as stated, fails: \<^verbatim>\<open>os.path.isfile\<close> follows symbolic links, so a link named
  \<^verbatim>\<open>link.md\<close> that resolves to a regular file is listed.
\<close>

theorem list_files_symlink_counterexample:
  "os_lstat demo_fs ''docs/link.md'' = Some (Symlink (Some Regular)) \<and>
   list_files demo_fs ''docs'' =
     Inr ([''docs/a.md'', ''docs/b.MD'', ''docs/link.md''], [''docs/x.PNG''])"
  by code_simp

text \<open>
  Claim C9, amended. The Markdown list holds exactly the paths of the names of the directory
  for which \<^verbatim>\<open>os.stat\<close> (which follows links) reports a regular file and whose extension
  in lower case is in \<^verbatim>\<open>MD_EXT\<close>; the image list likewise with \<^verbatim>\<open>IMG_EXT\<close>. So every
  listed path is a regular file or a symbolic link that resolves to one: subdirectories,
  special files, dangling links, links to anything but a regular file and files with another
  extension are left out, and a link to a regular file is listed like the file.
\<close>

theorem list_files_excludes:
  assumes "list_files fs root = Inr (mds, imgs)"
  shows "\<exists>names.
           os_listdir fs root = Inr names \<and>
           set mds = {os_path_join root n | n. n \<in> set names \<and>
                        os_stat fs (os_path_join root n) = Some Regular \<and>
                        lower (snd (os_path_splitext n)) \<in> MD_EXT} \<and>
           set imgs = {os_path_join root n | n. n \<in> set names \<and>
                         os_stat fs (os_path_join root n) = Some Regular \<and>
                         lower (snd (os_path_splitext n)) \<in> IMG_EXT} \<and>
           (\<forall>p\<in>set mds \<union> set imgs.
              os_lstat fs p = Some (Plain Regular) \<or>
              os_lstat fs p = Some (Symlink (Some Regular)))"
proof -
  from assms obtain names where ls: "os_listdir fs root = Inr names"
    and mds: "mds = map (os_path_join root) (filter (is_md fs root) (sort names))"
    and imgs: "imgs = map (os_path_join root) (filter (is_img fs root) (sort names))"
    by (rule list_files_Inr)
  have m: "set mds = {os_path_join root n | n. n \<in> set names \<and>
                        os_stat fs (os_path_join root n) = Some Regular \<and>
                        lower (snd (os_path_splitext n)) \<in> MD_EXT}"
    unfolding mds by (auto simp: is_md_def os_path_isfile_def file_ext_def)
  have i: "set imgs = {os_path_join root n | n. n \<in> set names \<and>
                         os_stat fs (os_path_join root n) = Some Regular \<and>
                         lower (snd (os_path_splitext n)) \<in> IMG_EXT}"
    unfolding imgs by (auto simp: is_img_def os_path_isfile_def file_ext_def)
  have reg: "os_lstat fs p = Some (Plain Regular) \<or> os_lstat fs p = Some (Symlink (Some Regular))"
    if "os_stat fs p = Some Regular" for p
    using that by (auto simp: os_stat_def split: option.splits node.splits)
  have "\<forall>p\<in>set mds \<union> set imgs.
          os_lstat fs p = Some (Plain Regular) \<or> os_lstat fs p = Some (Symlink (Some Regular))"
    unfolding m i using reg by blast
  with ls m i show ?thesis by blast
qed

theorem list_files_excludes_witness:
  "list_files demo_fs ''docs'' =
     Inr ([''docs/a.md'', ''docs/b.MD'', ''docs/link.md''], [''docs/x.PNG'']) \<and>
   (\<exists>names.
      os_listdir demo_fs ''docs'' = Inr names \<and>
      set [''docs/a.md'', ''docs/b.MD'', ''docs/link.md''] =
        {os_path_join ''docs'' n | n. n \<in> set names \<and>
           os_stat demo_fs (os_path_join ''docs'' n) = Some Regular \<and>
           lower (snd (os_path_splitext n)) \<in> MD_EXT} \<and>
      set [''docs/x.PNG''] =
        {os_path_join ''docs'' n | n. n \<in> set names \<and>
           os_stat demo_fs (os_path_join ''docs'' n) = Some Regular \<and>
           lower (snd (os_path_splitext n)) \<in> IMG_EXT} \<and>
      (\<forall>p\<in>set [''docs/a.md'', ''docs/b.MD'', ''docs/link.md''] \<union> set [''docs/x.PNG''].
         os_lstat demo_fs p = Some (Plain Regular) \<or>
         os_lstat demo_fs p = Some (Symlink (Some Regular))))"
proof -
  have run: "list_files demo_fs ''docs'' =
     Inr ([''docs/a.md'', ''docs/b.MD'', ''docs/link.md''], [''docs/x.PNG''])"
    by code_simp
  show ?thesis by (rule conjI [OF run list_files_excludes [OF run]])
qed

section \<open>Search\<close>

lemma str_in_sublist: "str_in q s \<longleftrightarrow> sublist q s"
  by (induction s) (simp_all add: sublist_Cons_right)

lemma enumerate1_map: "enumerate1 xs = map (\<lambda>i. (i, xs ! nat (i - 1))) [1..int (length xs)]"
proof (rule nth_equalityI)
  show "length (enumerate1 xs) = length (map (\<lambda>i. (i, xs ! nat (i - 1))) [1..int (length xs)])"
    by (simp add: enumerate1_def)
next
  fix k
  assume "k < length (enumerate1 xs)"
  then have k: "k < length xs" by (simp add: enumerate1_def)
  then have "[1..int (length xs)] ! k = 1 + int k" by (simp add: nth_upto)
  with k show "enumerate1 xs ! k = map (\<lambda>i. (i, xs ! nat (i - 1))) [1..int (length xs)] ! k"
    by (simp add: enumerate1_def)
qed

lemma foldl_match_step:
  "foldl (match_step p q c lines) results xs =
     results @ map (\<lambda>il. (p, fst il, highlight q (snippet_window lines (fst il) c)))
                 (filter (\<lambda>il. str_in (lower q) (lower (snd il))) xs)"
proof (induction xs arbitrary: results)
  case Nil
  show ?case by simp
next
  case (Cons il xs)
  have step: "match_step p q c lines results il =
     (if str_in (lower q) (lower (snd il))
      then results @ [(p, fst il, highlight q (snippet_window lines (fst il) c))]
      else results)"
    by (rule match_step_def)
  show ?case by (simp add: Cons.IH step)
qed

lemma search_doc_eq:
  "search_doc p q c text results =
     results @ map (\<lambda>i. (p, i, highlight q (snippet_window (splitlines text) i c)))
                 (filter (\<lambda>i. sublist (lower q) (lower (splitlines text ! nat (i - 1))))
                    [1..int (length (splitlines text))])"
  by (simp add: search_doc_def foldl_match_step enumerate1_map filter_map o_def str_in_sublist)

lemma search_loop_ok:
  assumes "\<forall>p\<in>set ps. \<exists>text. read_text fs p = Inr text"
  shows "search_loop fs q c ps results =
         Inr (results @ concat (map (\<lambda>p. search_doc p q c (projr (read_text fs p)) []) ps))"
  using assms
proof (induction ps arbitrary: results)
  case Nil
  show ?case by simp
next
  case (Cons p ps)
  from Cons.prems obtain content where t: "read_text fs p = Inr content" by auto
  have app: "search_doc p q c content results = results @ search_doc p q c content []"
    by (simp add: search_doc_eq)
  from Cons.prems have "\<forall>p\<in>set ps. \<exists>text. read_text fs p = Inr text" by simp
  then show ?case by (simp add: t Cons.IH app)
qed


lemma search_loop_Inr_readable:
  "search_loop fs q c ps results = Inr rs \<Longrightarrow> \<forall>p\<in>set ps. \<exists>text. read_text fs p = Inr text"
proof (induction ps arbitrary: results)
  case Nil
  show ?case by simp
next
  case (Cons p ps)
  then show ?case by (cases "read_text fs p") auto
qed

lemma doc_lines_readable: "read_text fs p = Inr text \<Longrightarrow> doc_lines fs p = splitlines text"
  by (simp add: doc_lines_def)

lemma doc_positions:
  assumes "read_text fs p = Inr text"
  shows "map (\<lambda>(p, i, s). (p, i)) (search_doc p q c (projr (read_text fs p)) []) =
         map (\<lambda>i. (p, i))
           (filter (\<lambda>i. sublist (lower q) (lower (doc_lines fs p ! nat (i - 1))))
              [1..int (length (doc_lines fs p))])"
  by (simp add: assms search_doc_eq doc_lines_readable [OF assms] o_def)

lemma search_all_positions:
  assumes "\<forall>p\<in>set ps. \<exists>text. read_text fs p = Inr text"
  shows "\<exists>results. search_all fs ps q c = Inr results \<and>
           map (\<lambda>(p, i, s). (p, i)) results =
           concat (map (\<lambda>p. map (\<lambda>i. (p, i))
                     (filter (\<lambda>i. sublist (lower q) (lower (doc_lines fs p ! nat (i - 1))))
                        [1..int (length (doc_lines fs p))])) ps)"
proof -
  let ?found = "\<lambda>p. search_doc p q c (projr (read_text fs p)) []"
  let ?lines = "\<lambda>p. map (\<lambda>i. (p, i))
                      (filter (\<lambda>i. sublist (lower q) (lower (doc_lines fs p ! nat (i - 1))))
                         [1..int (length (doc_lines fs p))])"
  have run: "search_all fs ps q c = Inr (concat (map ?found ps))"
    by (simp add: search_all_def search_loop_ok [OF assms])
  have each: "map (\<lambda>(p, i, s). (p, i)) (?found p) = ?lines p" if "p \<in> set ps" for p
  proof -
    from that assms obtain content where "read_text fs p = Inr content" by blast
    then show ?thesis by (rule doc_positions)
  qed
  have "map (\<lambda>(p, i, s). (p, i)) (concat (map ?found ps)) =
        concat (map (\<lambda>p. map (\<lambda>(p, i, s). (p, i)) (?found p)) ps)"
    by (simp add: map_concat o_def)
  also have "\<dots> = concat (map ?lines ps)"
    by (rule arg_cong [where f = concat], rule map_cong [OF refl], rule each)
  finally show ?thesis using run by blast
qed

text \<open>
  Claim C4, as stated, fails for a sequence with a document that cannot be read:
  \<^verbatim>\<open>search_all\<close> then ends in the error of \<^verbatim>\<open>read_text\<close> and returns no match, although
  line 1 of the first document contains the query.
\<close>

theorem search_all_matches_counterexample:
  "sublist (lower ''cat'') (lower (doc_lines demo_fs ''docs/a.md'' ! 0)) \<and>
   read_text demo_fs ''docs/b.MD'' = Inl PermissionError \<and>
   search_all demo_fs [''docs/a.md'', ''docs/b.MD''] ''cat'' 1 = Inl PermissionError"
  by code_simp

text \<open>
  Claim C4, amended. When every document of the sequence can be read, \<^verbatim>\<open>search_all\<close>
  returns, and the (document, line number) pairs of its result are, in this order, the
  documents in the order given and within a document the numbers, counted from 1, of exactly
  the lines whose lower-case text contains the lower-case query: one match per such line,
  none cut off.
\<close>

theorem search_all_matches:
  assumes "\<forall>p\<in>set md_paths. \<exists>text. read_text fs p = Inr text"
  shows "\<exists>results.
           search_all fs md_paths query context = Inr results \<and>
           map (\<lambda>(p, i, snippet). (p, i)) results =
           concat (map (\<lambda>p. map (\<lambda>i. (p, i))
                     (filter (\<lambda>i. sublist (lower query) (lower (doc_lines fs p ! nat (i - 1))))
                        [1..int (length (doc_lines fs p))])) md_paths)"
  using assms by (rule search_all_positions)

theorem search_all_matches_witness:
  "read_text demo_fs ''docs/a.md'' =
     Inr (''The Cat sat'' @ [LF] @ ''dog'' @ [LF] @ ''concat'' @ [LF] @ ''banana'') \<and>
   read_text demo_fs ''docs/link.md'' = Inr ''# Cats'' \<and>
   (\<exists>results.
      search_all demo_fs [''docs/a.md'', ''docs/link.md''] ''cat'' 1 = Inr results \<and>
      map (\<lambda>(p, i, snippet). (p, i)) results =
        [(''docs/a.md'', 1), (''docs/a.md'', 3), (''docs/link.md'', 1)])"
proof -
  have a: "read_text demo_fs ''docs/a.md'' =
     Inr (''The Cat sat'' @ [LF] @ ''dog'' @ [LF] @ ''concat'' @ [LF] @ ''banana'')"
    by (simp add: read_text_def demo_fs_def)
  have b: "read_text demo_fs ''docs/link.md'' = Inr ''# Cats''"
    by (simp add: read_text_def demo_fs_def)
  from a b have readable:
    "\<forall>p\<in>set [''docs/a.md'', ''docs/link.md'']. \<exists>text. read_text demo_fs p = Inr text"
    by simp
  have lines:
    "concat (map (\<lambda>p. map (\<lambda>i. (p, i))
        (filter (\<lambda>i. sublist (lower ''cat'') (lower (doc_lines demo_fs p ! nat (i - 1))))
           [1..int (length (doc_lines demo_fs p))])) [''docs/a.md'', ''docs/link.md'']) =
     [(''docs/a.md'', 1), (''docs/a.md'', 3), (''docs/link.md'', 1)]"
    by code_simp
  from search_all_matches [OF readable, of "''cat''" 1] lines
  have "\<exists>results.
      search_all demo_fs [''docs/a.md'', ''docs/link.md''] ''cat'' 1 = Inr results \<and>
      map (\<lambda>(p, i, snippet). (p, i)) results =
        [(''docs/a.md'', 1), (''docs/a.md'', 3), (''docs/link.md'', 1)]"
    by simp
  with a b show ?thesis by blast
qed


lemma str_in_empty: "str_in (lower []) (lower line)"
  by (simp add: str_in_sublist lower_def)

text \<open>
  Claim C10, as stated, fails for a sequence with a document that cannot be read: with the
  empty query too \<^verbatim>\<open>search_all\<close> ends in the error of \<^verbatim>\<open>read_text\<close>, and no line of the
  first document, which has four, gives a match.
\<close>

theorem search_all_empty_query_counterexample:
  "length (doc_lines demo_fs ''docs/a.md'') = 4 \<and>
   read_text demo_fs ''docs/b.MD'' = Inl PermissionError \<and>
   search_all demo_fs [''docs/a.md'', ''docs/b.MD''] [] 1 = Inl PermissionError"
  by code_simp

text \<open>
  Claim C10, amended. \<^verbatim>\<open>search_all\<close> has no minimum query length. The empty query is found
  in every line, the empty line included, so when every document of the sequence can be read
  the result holds one match for every line of every document, in order.
\<close>

theorem search_all_empty_query:
  assumes "\<forall>p\<in>set md_paths. \<exists>text. read_text fs p = Inr text"
  shows "str_in (lower []) (lower line) \<and>
         (\<exists>results.
            search_all fs md_paths [] context = Inr results \<and>
            map (\<lambda>(p, i, snippet). (p, i)) results =
            concat (map (\<lambda>p. map (\<lambda>i. (p, i)) [1..int (length (doc_lines fs p))]) md_paths))"
proof -
  have empty: "lower [] = []" by (simp add: lower_def)
  from search_all_positions [OF assms, of "[]" "context"]
  have "\<exists>results.
          search_all fs md_paths [] context = Inr results \<and>
          map (\<lambda>(p, i, snippet). (p, i)) results =
          concat (map (\<lambda>p. map (\<lambda>i. (p, i)) [1..int (length (doc_lines fs p))]) md_paths)"
    by (simp add: empty)
  with str_in_empty [of line] show ?thesis by (rule conjI)
qed

theorem search_all_empty_query_witness:
  "read_text demo_fs ''docs/a.md'' =
     Inr (''The Cat sat'' @ [LF] @ ''dog'' @ [LF] @ ''concat'' @ [LF] @ ''banana'') \<and>
   read_text demo_fs ''docs/link.md'' = Inr ''# Cats'' \<and>
   str_in (lower []) (lower []) \<and>
   (\<exists>results.
      search_all demo_fs [''docs/a.md'', ''docs/link.md''] [] 1 = Inr results \<and>
      map (\<lambda>(p, i, snippet). (p, i)) results =
        [(''docs/a.md'', 1), (''docs/a.md'', 2), (''docs/a.md'', 3), (''docs/a.md'', 4),
         (''docs/link.md'', 1)])"
proof -
  have a: "read_text demo_fs ''docs/a.md'' =
     Inr (''The Cat sat'' @ [LF] @ ''dog'' @ [LF] @ ''concat'' @ [LF] @ ''banana'')"
    by (simp add: read_text_def demo_fs_def)
  have b: "read_text demo_fs ''docs/link.md'' = Inr ''# Cats''"
    by (simp add: read_text_def demo_fs_def)
  from a b have readable:
    "\<forall>p\<in>set [''docs/a.md'', ''docs/link.md'']. \<exists>text. read_text demo_fs p = Inr text"
    by simp
  have lines:
    "concat (map (\<lambda>p. map (\<lambda>i. (p, i)) [1..int (length (doc_lines demo_fs p))])
        [''docs/a.md'', ''docs/link.md'']) =
     [(''docs/a.md'', 1), (''docs/a.md'', 2), (''docs/a.md'', 3), (''docs/a.md'', 4),
      (''docs/link.md'', 1)]"
    by code_simp
  from search_all_empty_query [OF readable, of "[]" 1] lines
  have "str_in (lower []) (lower []) \<and>
    (\<exists>results.
      search_all demo_fs [''docs/a.md'', ''docs/link.md''] [] 1 = Inr results \<and>
      map (\<lambda>(p, i, snippet). (p, i)) results =
        [(''docs/a.md'', 1), (''docs/a.md'', 2), (''docs/a.md'', 3), (''docs/a.md'', 4),
         (''docs/link.md'', 1)])"
    by simp
  with a b show ?thesis by blast
qed





lemma py_slice_window:
  assumes "0 \<le> a" and "a \<le> b" and "b \<le> int (length xs)"
  shows "py_slice xs a b = map (\<lambda>k. xs ! nat (k - 1)) [a + 1..b]"
proof (rule nth_equalityI)
  from assms show len: "length (py_slice xs a b) = length (map (\<lambda>k. xs ! nat (k - 1)) [a + 1..b])"
    by (simp add: py_slice_def Let_def min_def) linarith
  fix k
  assume "k < length (py_slice xs a b)"
  with len have k: "k < nat (b - a)" by simp
  with assms have "[a + 1..b] ! k = a + 1 + int k" by (simp add: nth_upto)
  moreover have "py_slice xs a b ! k = xs ! (nat a + k)"
  proof -
    from assms k have "nat a + k < nat b" and "nat a \<le> length (take (nat b) xs)" by auto
    then have "drop (nat a) (take (nat b) xs) ! k = xs ! (nat a + k)" by simp
    with assms show ?thesis by (simp add: py_slice_def Let_def min_def)
  qed
  moreover from assms have "nat (a + 1 + int k - 1) = nat a + k" by simp
  ultimately show "py_slice xs a b ! k = map (\<lambda>k. xs ! nat (k - 1)) [a + 1..b] ! k"
    using k by simp
qed

lemma snippet_window_lines:
  assumes "0 \<le> c" and "1 \<le> i" and "i \<le> int (length lines)"
  shows "snippet_window lines i c =
         join_lines (map (\<lambda>k. lines ! nat (k - 1))
                       [max 1 (i - c)..min (int (length lines)) (i + c)])"
proof -
  have "py_slice lines (max 1 (i - c) - 1) (min (int (length lines)) (i + c)) =
        map (\<lambda>k. lines ! nat (k - 1))
          [max 1 (i - c) - 1 + 1..min (int (length lines)) (i + c)]"
    using assms by (intro py_slice_window) auto
  then show ?thesis by (simp add: snippet_window_def)
qed

lemma snippet_window_zero:
  assumes "1 \<le> i" and "i \<le> int (length lines)"
  shows "snippet_window lines i 0 = lines ! nat (i - 1)"
proof -
  from assms have "[max 1 (i - 0)..min (int (length lines)) (i + 0)] = [i]"
    by (simp add: max_def min_def)
  with snippet_window_lines [of 0 i lines] assms show ?thesis by simp
qed

lemma snippet_window_first:
  assumes "2 \<le> length lines"
  shows "snippet_window lines 1 1 = lines ! 0 @ LF # lines ! 1"
proof -
  from assms have "[max 1 (1 - 1)..min (int (length lines)) (1 + 1)] = [1, 2 :: int]"
    by (simp add: min_def upto_rec1 [of 1 2])
  with snippet_window_lines [of 1 1 lines] assms show ?thesis by simp
qed

lemma search_all_member:
  assumes "search_all fs ps q c = Inr results" and "(p, i, s) \<in> set results"
  shows "\<exists>content. read_text fs p = Inr content \<and>
           1 \<le> i \<and> i \<le> int (length (splitlines content)) \<and>
           s = highlight q (snippet_window (splitlines content) i c)"
proof -
  from assms(1) have readable: "\<forall>p\<in>set ps. \<exists>text. read_text fs p = Inr text"
    unfolding search_all_def by (rule search_loop_Inr_readable)
  with assms(1)
  have "results = concat (map (\<lambda>p. search_doc p q c (projr (read_text fs p)) []) ps)"
    by (simp add: search_all_def search_loop_ok)
  with assms(2) obtain p' where p': "p' \<in> set ps"
    and mem: "(p, i, s) \<in> set (search_doc p' q c (projr (read_text fs p')) [])"
    by auto
  from p' readable obtain content where c: "read_text fs p' = Inr content" by blast
  from mem have "p = p' \<and> 1 \<le> i \<and> i \<le> int (length (splitlines content)) \<and>
      s = highlight q (snippet_window (splitlines content) i c)"
    by (auto simp: c search_doc_eq)
  with c show ?thesis by blast
qed

text \<open>
  Claim C5. For a context that is not negative, every match \<^verbatim>\<open>(p, i, snippet)\<close> returned by
  \<^verbatim>\<open>search_all\<close> has a line number \<^verbatim>\<open>i\<close> between 1 and the number \<open>N\<close> of lines of the
  document, and its snippet is the highlighted join, with line feeds, of the lines
  \<open>max 1 (i - context)\<close> to \<open>min N (i + context)\<close> of the document, in order and unchanged.
  With context 0 this is the matched line alone; for a match on line 1 with context 1 in a
  document of two or more lines it is line 1, a line feed and line 2.
\<close>

theorem search_all_snippet_window:
  assumes "0 \<le> context"
    and "search_all fs md_paths query context = Inr results"
    and "(p, i, snippet) \<in> set results"
  shows "\<exists>content.
           read_text fs p = Inr content \<and>
           1 \<le> i \<and> i \<le> int (length (splitlines content)) \<and>
           snippet = highlight query (snippet_window (splitlines content) i context) \<and>
           snippet_window (splitlines content) i context =
             join_lines (map (\<lambda>k. splitlines content ! nat (k - 1))
                           [max 1 (i - context)..min (int (length (splitlines content))) (i + context)]) \<and>
           (context = 0 \<longrightarrow>
              snippet_window (splitlines content) i context = splitlines content ! nat (i - 1)) \<and>
           (context = 1 \<and> i = 1 \<and> 2 \<le> length (splitlines content) \<longrightarrow>
              snippet_window (splitlines content) i context =
                splitlines content ! 0 @ LF # splitlines content ! 1)"
proof -
  from search_all_member [OF assms(2,3)] obtain content
    where c: "read_text fs p = Inr content"
      and lo: "1 \<le> i" and hi: "i \<le> int (length (splitlines content))"
      and s: "snippet = highlight query (snippet_window (splitlines content) i context)"
    by blast
  note snippet_window_lines [OF assms(1) lo hi]
  moreover have "context = 0 \<longrightarrow>
      snippet_window (splitlines content) i context = splitlines content ! nat (i - 1)"
    using snippet_window_zero [OF lo hi] by simp
  moreover have "context = 1 \<and> i = 1 \<and> 2 \<le> length (splitlines content) \<longrightarrow>
      snippet_window (splitlines content) i context =
        splitlines content ! 0 @ LF # splitlines content ! 1"
    using snippet_window_first by blast
  ultimately show ?thesis using c lo hi s by blast
qed

theorem search_all_snippet_window_witness:
  "(0::int) \<le> 1 \<and>
   search_all demo_fs [''docs/a.md''] ''cat'' 1 =
     Inr [(''docs/a.md'', 1, ''The [Cat] sat'' @ [LF] @ ''dog''),
          (''docs/a.md'', 3, ''dog'' @ [LF] @ ''con[cat]'' @ [LF] @ ''banana'')] \<and>
   (\<exists>content.
      read_text demo_fs ''docs/a.md'' = Inr content \<and>
      ''The [Cat] sat'' @ [LF] @ ''dog'' =
        highlight ''cat'' (snippet_window (splitlines content) 1 1) \<and>
      snippet_window (splitlines content) 1 1 =
        join_lines (map (\<lambda>k. splitlines content ! nat (k - 1))
                      [max 1 (1 - 1)..min (int (length (splitlines content))) (1 + 1)]))"
proof -
  have run: "search_all demo_fs [''docs/a.md''] ''cat'' 1 =
     Inr [(''docs/a.md'', 1, ''The [Cat] sat'' @ [LF] @ ''dog''),
          (''docs/a.md'', 3, ''dog'' @ [LF] @ ''con[cat]'' @ [LF] @ ''banana'')]"
    by code_simp
  have pos: "(0::int) \<le> 1" by simp
  have mem: "(''docs/a.md'', 1, ''The [Cat] sat'' @ [LF] @ ''dog'') \<in>
     set [(''docs/a.md'', 1, ''The [Cat] sat'' @ [LF] @ ''dog''),
          (''docs/a.md'', 3, ''dog'' @ [LF] @ ''con[cat]'' @ [LF] @ ''banana'')]"
    by simp
  from search_all_snippet_window [OF pos run mem]
  have "\<exists>content.
      read_text demo_fs ''docs/a.md'' = Inr content \<and>
      ''The [Cat] sat'' @ [LF] @ ''dog'' =
        highlight ''cat'' (snippet_window (splitlines content) 1 1) \<and>
      snippet_window (splitlines content) 1 1 =
        join_lines (map (\<lambda>k. splitlines content ! nat (k - 1))
                      [max 1 (1 - 1)..min (int (length (splitlines content))) (1 + 1)])"
    by blast
  with pos run show ?thesis by blast
qed


section \<open>Highlighting\<close>

lemma ci_prefix_occurs: "ci_prefix q s \<longleftrightarrow> occurs_at q s 0"
  by (induction q s rule: ci_prefix.induct) (auto simp: occurs_at_def lower_def)

lemma occurs_at_Cons: "occurs_at q (c # cs) (Suc i) \<longleftrightarrow> occurs_at q cs i"
  by (simp add: occurs_at_def)

lemma occurs_at_drop:
  assumes "n \<le> length s"
  shows "occurs_at q (drop n s) i \<longleftrightarrow> occurs_at q s (n + i)"
proof -
  have "drop i (drop n s) = drop (n + i) s" by (simp add: add.commute)
  moreover from assms have "i + length q \<le> length s - n \<longleftrightarrow> n + i + length q \<le> length s"
    by linarith
  ultimately show ?thesis by (simp add: occurs_at_def)
qed

lemma occurs_at_length: "occurs_at q s i \<Longrightarrow> i + length q \<le> length s"
  by (simp add: occurs_at_def)

lemma re_scan_empty_Nil: "re_scan [] [] = [Hit []]"
  by (simp add: re_scan.simps)

lemma re_scan_empty_Cons: "re_scan [] (c # cs) = Hit [] # Copy c # re_scan [] cs"
  by (simp add: re_scan.simps [of "[]" "c # cs"])

lemma re_scan_hit:
  assumes "q \<noteq> []" and "ci_prefix q s"
  shows "re_scan q s = Hit (take (length q) s) # re_scan q (drop (length q) s)"
  using assms by (simp add: re_scan.simps [of q s])

lemma re_scan_miss_Nil: "\<not> ci_prefix q [] \<Longrightarrow> re_scan q [] = []"
  by (simp add: re_scan.simps [of q "[]"])

lemma re_scan_miss_Cons: "\<not> ci_prefix q (c # cs) \<Longrightarrow> re_scan q (c # cs) = Copy c # re_scan q cs"
  by (simp add: re_scan.simps [of q "c # cs"])

lemma re_scan_source: "concat (map source_text (re_scan q s)) = s"
proof (induction q s rule: re_scan.induct)
  case (1 q s)
  show ?case
  proof (cases "ci_prefix q s")
    case hit: True
    show ?thesis
    proof (cases "q = []")
      case True
      with hit "1.IH"(1) show ?thesis
        by (cases s) (simp_all add: re_scan_empty_Nil re_scan_empty_Cons)
    next
      case False
      with hit "1.IH"(2) show ?thesis by (simp add: re_scan_hit)
    qed
  next
    case False
    with "1.IH"(3) show ?thesis
      by (cases s) (simp_all add: re_scan_miss_Nil re_scan_miss_Cons)
  qed
qed

lemma hit_starts_sound:
  "j \<in> set (hit_starts k (re_scan q s)) \<Longrightarrow> k \<le> j \<and> occurs_at q s (j - k)"
proof (induction q s arbitrary: k rule: re_scan.induct)
  case (1 q s)
  show ?case
  proof (cases "ci_prefix q s")
    case hit: True
    then have here: "occurs_at q s 0" by (simp add: ci_prefix_occurs)
    show ?thesis
    proof (cases "q = []")
      case True
      show ?thesis
      proof (cases s)
        case Nil
        with True "1.prems" here show ?thesis by (simp add: re_scan_empty_Nil)
      next
        case (Cons c cs)
        with True "1.prems" have "j = k \<or> j \<in> set (hit_starts (Suc k) (re_scan q cs))"
          by (simp add: re_scan_empty_Cons)
        then show ?thesis
        proof
          assume "j = k"
          with here show ?thesis by simp
        next
          assume "j \<in> set (hit_starts (Suc k) (re_scan q cs))"
          from "1.IH"(1) [OF hit True Cons this]
          have "Suc k \<le> j" and "occurs_at q cs (j - Suc k)" by simp_all
          then have "occurs_at q (c # cs) (Suc (j - Suc k))" by (simp add: occurs_at_Cons)
          moreover from \<open>Suc k \<le> j\<close> have "Suc (j - Suc k) = j - k" by simp
          ultimately show ?thesis using \<open>Suc k \<le> j\<close> Cons by simp
        qed
      qed
    next
      case False
      from here have len: "length q \<le> length s" by (simp add: occurs_at_def)
      from False hit "1.prems" len
      have "j = k \<or> j \<in> set (hit_starts (k + length q) (re_scan q (drop (length q) s)))"
        by (simp add: re_scan_hit)
      then show ?thesis
      proof
        assume "j = k"
        with here show ?thesis by simp
      next
        assume "j \<in> set (hit_starts (k + length q) (re_scan q (drop (length q) s)))"
        from "1.IH"(2) [OF hit False this]
        have le: "k + length q \<le> j"
          and occ: "occurs_at q (drop (length q) s) (j - (k + length q))" by simp_all
        from occ len have "occurs_at q s (length q + (j - (k + length q)))"
          by (simp add: occurs_at_drop)
        moreover from le have "length q + (j - (k + length q)) = j - k" by simp
        ultimately show ?thesis using le by simp
      qed
    qed
  next
    case False
    show ?thesis
    proof (cases s)
      case Nil
      with False "1.prems" show ?thesis by (simp add: re_scan_miss_Nil)
    next
      case (Cons c cs)
      with False "1.prems" have "j \<in> set (hit_starts (Suc k) (re_scan q cs))"
        by (simp add: re_scan_miss_Cons)
      from "1.IH"(3) [OF False Cons this]
      have "Suc k \<le> j" and "occurs_at q cs (j - Suc k)" by simp_all
      then have "occurs_at q (c # cs) (Suc (j - Suc k))" by (simp add: occurs_at_Cons)
      moreover from \<open>Suc k \<le> j\<close> have "Suc (j - Suc k) = j - k" by simp
      ultimately show ?thesis using \<open>Suc k \<le> j\<close> Cons by simp
    qed
  qed
qed

lemma hit_starts_cover:
  "occurs_at q s i \<Longrightarrow>
   \<exists>j\<in>set (hit_starts k (re_scan q s)). j \<le> k + i \<and> (k + i = j \<or> k + i < j + length q)"
proof (induction q s arbitrary: k i rule: re_scan.induct)
  case (1 q s)
  show ?case
  proof (cases "ci_prefix q s")
    case hit: True
    show ?thesis
    proof (cases "q = []")
      case True
      show ?thesis
      proof (cases s)
        case Nil
        with True "1.prems" have "i = 0" by (simp add: occurs_at_def)
        with True Nil show ?thesis by (simp add: re_scan_empty_Nil)
      next
        case (Cons c cs)
        show ?thesis
        proof (cases i)
          case 0
          with True Cons show ?thesis by (simp add: re_scan_empty_Cons)
        next
          case (Suc i')
          with "1.prems" Cons have "occurs_at q cs i'" by (simp add: occurs_at_Cons)
          from "1.IH"(1) [OF hit True Cons this, of "Suc k"]
          obtain j where "j \<in> set (hit_starts (Suc k) (re_scan q cs))"
            and "j \<le> Suc k + i'" and "Suc k + i' = j \<or> Suc k + i' < j + length q"
            by blast
          with True Cons Suc show ?thesis
            by (auto simp: re_scan_empty_Cons)
        qed
      qed
    next
      case False
      from hit have len: "length q \<le> length s" by (simp add: ci_prefix_occurs occurs_at_def)
      have scan: "hit_starts k (re_scan q s) =
                  k # hit_starts (k + length q) (re_scan q (drop (length q) s))"
        using False hit len by (simp add: re_scan_hit)
      show ?thesis
      proof (cases "i < length q")
        case True
        then show ?thesis unfolding scan by auto
      next
        case far: False
        then have i: "i = length q + (i - length q)" by simp
        with "1.prems" len have "occurs_at q (drop (length q) s) (i - length q)"
          by (metis occurs_at_drop)
        from "1.IH"(2) [OF hit False this, of "k + length q"]
        obtain j where "j \<in> set (hit_starts (k + length q) (re_scan q (drop (length q) s)))"
          and "j \<le> k + length q + (i - length q)"
          and "k + length q + (i - length q) = j \<or> k + length q + (i - length q) < j + length q"
          by blast
        with far show ?thesis unfolding scan by auto
      qed
    qed
  next
    case False
    then have not0: "\<not> occurs_at q s 0" by (simp add: ci_prefix_occurs)
    with "1.prems" obtain i' where i: "i = Suc i'" by (cases i) auto
    from "1.prems" i obtain c cs where s: "s = c # cs"
      by (cases s) (auto simp: occurs_at_def)
    with "1.prems" i have "occurs_at q cs i'" by (simp add: occurs_at_Cons)
    from "1.IH"(3) [OF False s this, of "Suc k"]
    obtain j where "j \<in> set (hit_starts (Suc k) (re_scan q cs))"
      and "j \<le> Suc k + i'" and "Suc k + i' = j \<or> Suc k + i' < j + length q"
      by blast
    with False s i show ?thesis by (auto simp: re_scan_miss_Cons)
  qed
qed

lemma hit_starts_ge: "j \<in> set (hit_starts k segs) \<Longrightarrow> k \<le> j"
proof (induction segs arbitrary: k)
  case Nil
  then show ?case by simp
next
  case (Cons g segs)
  then show ?case by (cases g) (auto dest: Suc_leD add_leD1)
qed

lemma hit_texts_scan:
  "hit_texts (re_scan q s) =
   map (\<lambda>j. take (length q) (drop (j - k) s)) (hit_starts k (re_scan q s))"
proof (induction q s arbitrary: k rule: re_scan.induct)
  case (1 q s)
  show ?case
  proof (cases "ci_prefix q s")
    case hit: True
    show ?thesis
    proof (cases "q = []")
      case True
      show ?thesis
      proof (cases s)
        case Nil
        with True show ?thesis by (simp add: re_scan_empty_Nil)
      next
        case (Cons c cs)
        from "1.IH"(1) [OF hit True Cons, of "Suc k"] True Cons
        show ?thesis by (simp add: re_scan_empty_Cons)
      qed
    next
      case False
      let ?n = "length q"
      let ?rest = "re_scan q (drop ?n s)"
      have "map (\<lambda>j. take ?n (drop (j - (k + ?n)) (drop ?n s))) (hit_starts (k + ?n) ?rest) =
            map (\<lambda>j. take ?n (drop (j - k) s)) (hit_starts (k + ?n) ?rest)"
      proof (rule map_cong [OF refl])
        fix j
        assume "j \<in> set (hit_starts (k + ?n) ?rest)"
        then have "k + ?n \<le> j" by (rule hit_starts_ge)
        then have "j - (k + ?n) + ?n = j - k" by simp
        then show "take ?n (drop (j - (k + ?n)) (drop ?n s)) = take ?n (drop (j - k) s)"
          by simp
      qed
      with "1.IH"(2) [OF hit False, of "k + ?n"]
      have "hit_texts ?rest = map (\<lambda>j. take ?n (drop (j - k) s)) (hit_starts (k + ?n) ?rest)"
        by simp
      moreover from hit have "?n \<le> length s" by (simp add: ci_prefix_occurs occurs_at_def)
      ultimately show ?thesis using False hit by (simp add: re_scan_hit)
    qed
  next
    case False
    show ?thesis
    proof (cases s)
      case Nil
      with False show ?thesis by (simp add: re_scan_miss_Nil)
    next
      case (Cons c cs)
      have "map (\<lambda>j. take (length q) (drop (j - Suc k) cs)) (hit_starts (Suc k) (re_scan q cs)) =
            map (\<lambda>j. take (length q) (drop (j - k) (c # cs))) (hit_starts (Suc k) (re_scan q cs))"
      proof (rule map_cong [OF refl])
        fix j
        assume "j \<in> set (hit_starts (Suc k) (re_scan q cs))"
        then have "Suc k \<le> j" by (rule hit_starts_ge)
        then have "j - k = Suc (j - Suc k)" by simp
        then show "take (length q) (drop (j - Suc k) cs) = take (length q) (drop (j - k) (c # cs))"
          by simp
      qed
      with "1.IH"(3) [OF False Cons, of "Suc k"] False Cons
      show ?thesis by (simp add: re_scan_miss_Cons)
    qed
  qed
qed

text \<open>
  Claim C2, as stated, fails where two occurrences of the query overlap: \<^verbatim>\<open>re.sub\<close> replaces
  matches that do not overlap, found from the left. The query \<^verbatim>\<open>ana\<close> occurs in \<^verbatim>\<open>banana\<close>
  at the offsets 1 and 3; only the first is put in brackets.
\<close>

theorem highlight_overlap_counterexample:
  "occurs_at ''ana'' ''banana'' 3 \<and>
   hit_starts 0 (re_scan ''ana'' ''banana'') = [1] \<and>
   search_all demo_fs [''docs/a.md''] ''ana'' 0 = Inr [(''docs/a.md'', 4, ''b[ana]na'')]"
  by code_simp

text \<open>
  Claim C2, amended. \<^verbatim>\<open>search_all\<close> highlights a snippet by a scan from the left. The scan
  cuts the snippet into copied characters and matches, and loses nothing: the pieces, put
  together again, are the snippet. Every match is put in brackets, starts at an occurrence
  of the query (ignoring case) and is the text of the snippet there, in the casing of the
  document. Every occurrence of the query in the snippet starts at a match or inside one
  that starts before it; so all occurrences are in brackets unless two of them overlap.
  For the query \<^verbatim>\<open>cat\<close> the snippet \<^verbatim>\<open>The Cat sat\<close> becomes \<^verbatim>\<open>The [Cat] sat\<close>.
\<close>

theorem highlight_occurrences:
  "highlight query snippet = concat (map replacement (re_scan query snippet)) \<and>
   concat (map source_text (re_scan query snippet)) = snippet \<and>
   hit_texts (re_scan query snippet) =
     map (\<lambda>j. take (length query) (drop j snippet)) (hit_starts 0 (re_scan query snippet)) \<and>
   (\<forall>j\<in>set (hit_starts 0 (re_scan query snippet)). occurs_at query snippet j) \<and>
   (\<forall>i. occurs_at query snippet i \<longrightarrow>
      (\<exists>j\<in>set (hit_starts 0 (re_scan query snippet)).
         j \<le> i \<and> (i = j \<or> i < j + length query))) \<and>
   highlight ''cat'' ''The Cat sat'' = ''The [Cat] sat''"
proof (intro conjI)
  show "highlight query snippet = concat (map replacement (re_scan query snippet))"
    by (simp add: highlight_def)
  show "concat (map source_text (re_scan query snippet)) = snippet"
    by (rule re_scan_source)
  show "hit_texts (re_scan query snippet) =
     map (\<lambda>j. take (length query) (drop j snippet)) (hit_starts 0 (re_scan query snippet))"
    using hit_texts_scan [of query snippet 0] by simp
  show "\<forall>j\<in>set (hit_starts 0 (re_scan query snippet)). occurs_at query snippet j"
    using hit_starts_sound [of _ 0 query snippet] by simp
  show "\<forall>i. occurs_at query snippet i \<longrightarrow>
      (\<exists>j\<in>set (hit_starts 0 (re_scan query snippet)).
         j \<le> i \<and> (i = j \<or> i < j + length query))"
    using hit_starts_cover [of query snippet _ 0] by simp
  show "highlight ''cat'' ''The Cat sat'' = ''The [Cat] sat''"
    by code_simp
qed

theorem highlight_occurrences_witness:
  "occurs_at ''cat'' ''The Cat sat'' 4 \<and>
   hit_starts 0 (re_scan ''cat'' ''The Cat sat'') = [4] \<and>
   hit_texts (re_scan ''cat'' ''The Cat sat'') = [''Cat''] \<and>
   highlight ''cat'' ''The Cat sat'' = ''The [Cat] sat'' \<and>
   search_all demo_fs [''docs/a.md''] ''cat'' 0 =
     Inr [(''docs/a.md'', 1, ''The [Cat] sat''), (''docs/a.md'', 3, ''con[cat]'')]"
proof -
  note inst = highlight_occurrences [of "''cat''" "''The Cat sat''"]
  have occ: "occurs_at ''cat'' ''The Cat sat'' 4" by code_simp
  have starts: "hit_starts 0 (re_scan ''cat'' ''The Cat sat'') = [4]" by code_simp
  have "hit_texts (re_scan ''cat'' ''The Cat sat'') =
        map (\<lambda>j. take (length ''cat'') (drop j ''The Cat sat''))
          (hit_starts 0 (re_scan ''cat'' ''The Cat sat''))"
    by (rule inst [THEN conjunct2, THEN conjunct2, THEN conjunct1])
  then have texts: "hit_texts (re_scan ''cat'' ''The Cat sat'') = [''Cat'']"
    by (simp add: starts)
  have out: "highlight ''cat'' ''The Cat sat'' = ''The [Cat] sat''"
    by (rule inst [THEN conjunct2, THEN conjunct2, THEN conjunct2, THEN conjunct2,
          THEN conjunct2])
  have run: "search_all demo_fs [''docs/a.md''] ''cat'' 0 =
     Inr [(''docs/a.md'', 1, ''The [Cat] sat''), (''docs/a.md'', 3, ''con[cat]'')]"
    by code_simp
  from occ starts texts out run show ?thesis by blast
qed


section \<open>Pagination\<close>

lemma foldl_extend: "foldl (\<lambda>acc x. acc @ f x) acc xs = acc @ concat (map f xs)"
  by (induction xs arbitrary: acc) simp_all

lemma wrap_text_concat:
  "wrap_text wrap cols text = concat (map (wrap_line wrap cols) (splitlines text))"
  by (simp add: wrap_text_def foldl_extend)

lemma chunks_Nil: "chunks n [] = []"
  by (simp add: chunks.simps)

lemma chunks_step:
  "0 < n \<Longrightarrow> xs \<noteq> [] \<Longrightarrow> chunks n xs = take n xs # chunks n (drop n xs)"
  by (simp add: chunks.simps [of n xs])

lemma chunks_concat: "0 < n \<Longrightarrow> concat (chunks n xs) = xs"
proof (induction n xs rule: chunks.induct)
  case (1 n xs)
  then show ?case by (cases "xs = []") (simp_all add: chunks_Nil chunks_step)
qed

lemma chunks_sizes: "0 < n \<Longrightarrow> c \<in> set (chunks n xs) \<Longrightarrow> 0 < length c \<and> length c \<le> n"
proof (induction n xs rule: chunks.induct)
  case (1 n xs)
  then show ?case by (cases "xs = []") (auto simp: chunks_Nil chunks_step)
qed

lemma chunks_full: "0 < n \<Longrightarrow> c \<in> set (butlast (chunks n xs)) \<Longrightarrow> length c = n"
proof (induction n xs rule: chunks.induct)
  case (1 n xs)
  show ?case
  proof (cases "xs = []")
    case True
    with "1.prems" show ?thesis by (simp add: chunks_Nil)
  next
    case False
    with "1.prems"(1) have step: "chunks n xs = take n xs # chunks n (drop n xs)"
      by (simp add: chunks_step)
    show ?thesis
    proof (cases "drop n xs = []")
      case True
      with "1.prems"(2) step show ?thesis by (simp add: chunks_Nil)
    next
      case more: False
      with "1.prems"(1) have "chunks n (drop n xs) \<noteq> []" by (simp add: chunks_step)
      with "1.prems"(2) step
      have "c = take n xs \<or> c \<in> set (butlast (chunks n (drop n xs)))" by simp
      then show ?thesis
      proof
        assume "c = take n xs"
        with more show ?thesis by simp
      next
        assume "c \<in> set (butlast (chunks n (drop n xs)))"
        with "1.IH" "1.prems"(1) False show ?thesis by simp
      qed
    qed
  qed
qed

lemma page_body:
  assumes "0 \<le> idx" and "idx < int (length lines)" and "0 < rows"
  shows "map (\<lambda>i. lines ! nat i) [idx..min (idx + rows) (int (length lines)) - 1] =
         take (nat rows) (drop (nat idx) lines)"
proof (rule nth_equalityI)
  from assms
  show len: "length (map (\<lambda>i. lines ! nat i) [idx..min (idx + rows) (int (length lines)) - 1]) =
             length (take (nat rows) (drop (nat idx) lines))"
    by (simp add: min_def) linarith
  fix k
  assume "k < length (map (\<lambda>i. lines ! nat i) [idx..min (idx + rows) (int (length lines)) - 1])"
  then have k: "idx + int k \<le> min (idx + rows) (int (length lines)) - 1" by simp linarith
  then have "[idx..min (idx + rows) (int (length lines)) - 1] ! k = idx + int k"
    by (simp add: nth_upto)
  moreover from assms have "nat (idx + int k) = nat idx + k" by simp
  moreover from k assms have "k < nat rows" and "nat idx + k < length lines" by auto
  ultimately
  show "map (\<lambda>i. lines ! nat i) [idx..min (idx + rows) (int (length lines)) - 1] ! k =
        take (nat rows) (drop (nat idx) lines) ! k"
    using k by simp
qed

lemma page_rest:
  assumes "0 \<le> idx" and "0 < rows"
  shows "drop (nat (min (idx + rows) (int (length lines)))) lines =
         drop (nat rows) (drop (nat idx) lines)"
proof (cases "idx + rows \<le> int (length lines)")
  case True
  with assms have "nat (min (idx + rows) (int (length lines))) = nat rows + nat idx"
    by (simp add: min_def nat_add_distrib)
  then show ?thesis by (simp only: drop_drop)
next
  case False
  with assms have "length lines \<le> nat rows + nat idx" by linarith
  with False show ?thesis by (simp add: min_def)
qed

lemma page_loop_chunks:
  assumes "0 < rows"
  shows "0 \<le> idx \<Longrightarrow>
         page_loop title rows lines idx shown =
         Some (shown @ map (\<lambda>b. \<lparr>chrome = title_block title, body = b\<rparr>)
                         (chunks (nat rows) (drop (nat idx) lines)))"
proof (induction "length lines - nat idx" arbitrary: idx shown rule: less_induct)
  case less
  let ?stop = "min (idx + rows) (int (length lines))"
  let ?mk = "\<lambda>b. \<lparr>chrome = title_block title, body = b\<rparr>"
  show ?case
  proof (cases "idx < int (length lines)")
    case False
    with less.prems have "drop (nat idx) lines = []" by simp
    with False show ?thesis by (simp add: page_loop.simps [of title rows lines idx] chunks_Nil)
  next
    case True
    with less.prems assms have smaller: "length lines - nat ?stop < length lines - nat idx"
      and stop: "0 \<le> ?stop"
      by (auto simp: min_def)
    have body: "map (\<lambda>i. lines ! nat i) [idx..?stop - 1] = take (nat rows) (drop (nat idx) lines)"
      using less.prems True assms by (rule page_body)
    from True less.prems have ne: "drop (nat idx) lines \<noteq> []" by simp
    from assms have "0 < nat rows" by simp
    then have split: "chunks (nat rows) (drop (nat idx) lines) =
        take (nat rows) (drop (nat idx) lines) # chunks (nat rows) (drop (nat ?stop) lines)"
      using ne by (simp add: chunks_step page_rest [OF less.prems assms])
    have "page_loop title rows lines idx shown =
          page_loop title rows lines ?stop
            (shown @ [?mk (map (\<lambda>i. lines ! nat i) [idx..?stop - 1])])"
      using True by (subst page_loop.simps) simp
    also have "\<dots> = Some ((shown @ [?mk (map (\<lambda>i. lines ! nat i) [idx..?stop - 1])]) @
                          map ?mk (chunks (nat rows) (drop (nat ?stop) lines)))"
      using smaller stop by (rule less.hyps)
    also have "\<dots> = Some (shown @ map ?mk (chunks (nat rows) (drop (nat idx) lines)))"
      by (simp add: body split)
    finally show ?thesis .
  qed
qed

lemma paginate_pages:
  assumes "0 < width" and "0 < height"
  shows "paginate wrap term text title width height =
         Some (map (\<lambda>b. \<lparr>chrome = title_block title, body = b\<rparr>)
                 (chunks (nat (max 10 (height - 3))) (wrap_text wrap width text)))"
proof -
  from assms have "viewport term width height = (width, height)" by (simp add: viewport_def)
  moreover have "0 < max 10 (height - 3)" by simp
  ultimately show ?thesis
    by (simp add: paginate_def Let_def page_loop_chunks)
qed

lemma body_pages: "map body (map (\<lambda>b. \<lparr>chrome = t, body = b\<rparr>) bs) = bs"
  by (induction bs) simp_all

text \<open>
  Claim C7. For a positive viewport \<^verbatim>\<open>paginate\<close> ends, and the bodies of the screens it shows
  are the consecutive chunks of \<open>max 10 (height - 3)\<close> lines of the wrapped text, in order:
  together they are the wrapped text, every screen but the last has exactly that many lines,
  and the last one has at least one line and at most that many.
\<close>

theorem paginate_chunks:
  assumes "0 < width" and "0 < height"
  shows "\<exists>pages.
           paginate wrap term text title width height = Some pages \<and>
           map body pages = chunks (nat (max 10 (height - 3))) (wrap_text wrap width text) \<and>
           concat (map body pages) = wrap_text wrap width text \<and>
           (\<forall>b\<in>set (butlast (map body pages)). int (length b) = max 10 (height - 3)) \<and>
           (\<forall>b\<in>set (map body pages). 0 < length b \<and> int (length b) \<le> max 10 (height - 3))"
proof -
  let ?n = "nat (max 10 (height - 3))"
  let ?lines = "wrap_text wrap width text"
  let ?pages = "map (\<lambda>b. \<lparr>chrome = title_block title, body = b\<rparr>) (chunks ?n ?lines)"
  have n: "0 < ?n" by simp
  have run: "paginate wrap term text title width height = Some ?pages"
    using assms by (rule paginate_pages)
  have bodies: "map body ?pages = chunks ?n ?lines" by (rule body_pages)
  have "concat (chunks ?n ?lines) = ?lines" using n by (rule chunks_concat)
  moreover have "\<forall>b\<in>set (butlast (chunks ?n ?lines)). int (length b) = max 10 (height - 3)"
    using chunks_full [OF n] by fastforce
  moreover have "\<forall>b\<in>set (chunks ?n ?lines). 0 < length b \<and> int (length b) \<le> max 10 (height - 3)"
    using chunks_sizes [OF n] by fastforce
  ultimately show ?thesis using run bodies by (intro exI [of _ ?pages]) (simp only: simp_thms)
qed

theorem paginate_chunks_witness:
  "(0::int) < 2 \<and> (0::int) < 12 \<and>
   (\<exists>pages.
      paginate cut_wrap (100, 30) ''abcdefghijklmnopqrstuvwxy'' [] 2 12 = Some pages \<and>
      map body pages =
        [[''ab'', ''cd'', ''ef'', ''gh'', ''ij'', ''kl'', ''mn'', ''op'', ''qr'', ''st''],
         [''uv'', ''wx'', ''y'']])"
proof -
  have w: "(0::int) < 2" and h: "(0::int) < 12" by simp_all
  have split: "chunks (nat (max 10 (12 - 3))) (wrap_text cut_wrap 2 ''abcdefghijklmnopqrstuvwxy'') =
        [[''ab'', ''cd'', ''ef'', ''gh'', ''ij'', ''kl'', ''mn'', ''op'', ''qr'', ''st''],
         [''uv'', ''wx'', ''y'']]"
    by code_simp
  from paginate_chunks [OF w h, of cut_wrap "(100, 30)" "''abcdefghijklmnopqrstuvwxy''" "[]"]
  obtain pages
    where "paginate cut_wrap (100, 30) ''abcdefghijklmnopqrstuvwxy'' [] 2 12 = Some pages"
      and "map body pages =
           chunks (nat (max 10 (12 - 3))) (wrap_text cut_wrap 2 ''abcdefghijklmnopqrstuvwxy'')"
    by blast
  with split w h show ?thesis by (intro conjI exI [of _ pages]) (simp_all only:)
qed

text \<open>
  Claim C1. For a positive viewport \<^verbatim>\<open>paginate\<close> ends, and the bodies of its screens, put
  together in order, are the wrapped lines of the source lines in order: each source line
  is wrapped on its own to the width \<^verbatim>\<open>cols\<close> and gives the lines \<^verbatim>\<open>textwrap.wrap\<close>
  returns, or one empty line when it returns none. So every source line gives at least one
  line, and the empty source line, for which \<^verbatim>\<open>textwrap.wrap\<close> returns no line, gives exactly
  one empty line.
\<close>

theorem paginate_preserves_content:
  assumes "0 < width" and "0 < height"
  shows "\<exists>pages.
           paginate wrap term text title width height = Some pages \<and>
           concat (map body pages) =
             concat (map (\<lambda>l. if wrap width l = [] then [[]] else wrap width l)
                       (splitlines text)) \<and>
           (\<forall>l\<in>set (splitlines text). 1 \<le> length (wrap_line wrap width l)) \<and>
           (wrap width [] = [] \<longrightarrow> wrap_line wrap width [] = [[]])"
proof -
  from paginate_pages [OF assms, of wrap "term" "text" title]
  obtain pages where run: "paginate wrap term text title width height = Some pages"
    and pages: "pages = map (\<lambda>b. \<lparr>chrome = title_block title, body = b\<rparr>)
                        (chunks (nat (max 10 (height - 3))) (wrap_text wrap width text))"
    by simp
  have "0 < nat (max 10 (height - 3))" by simp
  then have "concat (map body pages) = wrap_text wrap width text"
    unfolding pages body_pages by (rule chunks_concat)
  also have "\<dots> = concat (map (\<lambda>l. if wrap width l = [] then [[]] else wrap width l)
                           (splitlines text))"
  proof -
    have "wrap_line wrap width = (\<lambda>l. if wrap width l = [] then [[]] else wrap width l)"
      by (rule ext) (simp add: wrap_line_def Let_def)
    then show ?thesis by (simp add: wrap_text_concat)
  qed
  finally have content: "concat (map body pages) =
      concat (map (\<lambda>l. if wrap width l = [] then [[]] else wrap width l) (splitlines text))" .
  have least: "\<forall>l\<in>set (splitlines text). 1 \<le> length (wrap_line wrap width l)"
    by (simp add: wrap_line_def Let_def Suc_le_eq)
  have blank: "wrap width [] = [] \<longrightarrow> wrap_line wrap width [] = [[]]"
    by (simp add: wrap_line_def)
  from run content least blank show ?thesis by blast
qed

theorem paginate_preserves_content_witness:
  "(0::int) < 3 \<and> (0::int) < 24 \<and> cut_wrap 3 [] = [] \<and>
   wrap_line cut_wrap 3 [] = [[]] \<and>
   (\<exists>pages.
      paginate cut_wrap (100, 30) (''abcde'' @ [LF, LF] @ ''fg'') ''doc'' 3 24 = Some pages \<and>
      concat (map body pages) = [''abc'', ''de'', [], ''fg''])"
proof -
  have w: "(0::int) < 3" and h: "(0::int) < 24" by simp_all
  have none: "cut_wrap 3 [] = []" by code_simp
  have wrapped:
    "concat (map (\<lambda>l. if cut_wrap 3 l = [] then [[]] else cut_wrap 3 l)
        (splitlines (''abcde'' @ [LF, LF] @ ''fg''))) = [''abc'', ''de'', [], ''fg'']"
    by code_simp
  from paginate_preserves_content
    [OF w h, of cut_wrap "(100, 30)" "''abcde'' @ [LF, LF] @ ''fg''" "''doc''"]
  obtain pages
    where "paginate cut_wrap (100, 30) (''abcde'' @ [LF, LF] @ ''fg'') ''doc'' 3 24 = Some pages"
      and "concat (map body pages) =
           concat (map (\<lambda>l. if cut_wrap 3 l = [] then [[]] else cut_wrap 3 l)
             (splitlines (''abcde'' @ [LF, LF] @ ''fg'')))"
      and "cut_wrap 3 [] = [] \<longrightarrow> wrap_line cut_wrap 3 [] = [[]]"
    by blast
  with wrapped none w h show ?thesis by (intro conjI exI [of _ pages]) (simp_all only:)
qed


end
